theory Spec2Isabelle
  imports Main
begin

section \<open>Card and round model (types.ts, scoring.ts)\<close>

text \<open>
  A card is a JavaScript object with the two immutable fields \<open>suit\<close> and \<open>rank\<close>.
  The engine compares cards in two ways: by reference (\<open>a === b\<close>) and by value
  (\<open>a.suit === b.suit && a.rank === b.rank\<close>).  The field \<open>oid\<close> stands for the
  identity of the object, so that reference equality is HOL equality of the whole record,
  and two physically distinct cards of equal suit and rank differ in \<open>oid\<close> only.
  No function of the engine assigns to a field of a card.
\<close>

datatype suit = clubs | diamonds | hearts | spades | stars

datatype rank = R3 | R4 | R5 | R6 | R7 | R8 | R9 | R10 | RJ | RQ | RK | Joker

record card =
  oid :: nat
  suit :: suit
  rank :: rank

text \<open>
  TypeScript's \<open>Round\<close> is the subset of \<open>Rank\<close> without \<open>'Joker'\<close>.  The functions only
  ever compare a round with a card's rank, so a round is modelled as a rank.
\<close>

type_synonym round = rank

datatype meld_type = book | run

record meld =
  type :: meld_type
  cards :: "card list"

definition isWildCard :: "card \<Rightarrow> round \<Rightarrow> bool" where
  "isWildCard c r = (rank c = r \<or> rank c = Joker)"

text \<open>\<open>parseInt(card.rank)\<close> on the numeric ranks; \<open>NaN\<close> (value 0) on the others.\<close>

fun parseIntRank :: "rank \<Rightarrow> int option" where
  "parseIntRank R3 = Some 3"
| "parseIntRank R4 = Some 4"
| "parseIntRank R5 = Some 5"
| "parseIntRank R6 = Some 6"
| "parseIntRank R7 = Some 7"
| "parseIntRank R8 = Some 8"
| "parseIntRank R9 = Some 9"
| "parseIntRank R10 = Some 10"
| "parseIntRank _ = None"

definition calculateCardPoints :: "card \<Rightarrow> round \<Rightarrow> int" where
  "calculateCardPoints c r =
     (if rank c = Joker then 50
      else if rank c = r then 20
      else if rank c = RJ then 11
      else if rank c = RQ then 12
      else if rank c = RK then 13
      else (case parseIntRank (rank c) of Some n \<Rightarrow> n | None \<Rightarrow> 0))"

section \<open>Meld enumeration (meldFinder.ts)\<close>

definition RANK_ORDER :: "rank list" where
  "RANK_ORDER = [R3, R4, R5, R6, R7, R8, R9, R10, RJ, RQ, RK]"

text \<open>\<open>Array.prototype.indexOf\<close>: the first position of the element, or -1.\<close>

fun indexOf :: "'a list \<Rightarrow> 'a \<Rightarrow> int" where
  "indexOf [] x = - 1"
| "indexOf (y # ys) x =
     (if y = x then 0 else (let k = indexOf ys x in if k = - 1 then - 1 else k + 1))"

definition rankIndex :: "rank \<Rightarrow> int" where
  "rankIndex r = indexOf RANK_ORDER r"

text \<open>The value comparison \<open>a.suit === b.suit && a.rank === b.rank\<close>.\<close>

definition sameSuitRank :: "card \<Rightarrow> card \<Rightarrow> bool" where
  "sameSuitRank a b = (suit a = suit b \<and> rank a = rank b)"

subsection \<open>Instance keys\<close>

text \<open>
  The loops that compute a key walk the cards of a candidate meld and take, for each, the
  first index of the hand that is not used yet and whose card matches (\<open>M handCard card\<close>).
  \<open>used\<close> is \<open>cardIndices\<close> (and \<open>usedIndices\<close>, which holds the same numbers).  When a
  card has no match the source empties \<open>cardIndices\<close> and leaves the loop.
\<close>

fun instanceIndices ::
  "(card \<Rightarrow> card \<Rightarrow> bool) \<Rightarrow> card list \<Rightarrow> card list \<Rightarrow> nat list \<Rightarrow> nat list" where
  "instanceIndices M hand [] used = used"
| "instanceIndices M hand (c # cs) used =
     (case find (\<lambda>i. i \<notin> set used \<and> M (hand ! i) c) [0..<length hand] of
        None \<Rightarrow> []
      | Some i \<Rightarrow> instanceIndices M hand cs (used @ [i]))"

text \<open>
  A key is \<open>cardIndices.sort((a, b) => a - b).join(',')\<close>; the join is injective on lists
  of numbers, so the sorted list itself is the key and \<open>seen\<close> is a list of keys.
\<close>

type_synonym key = "nat list"

subsection \<open>Books\<close>

definition bookMatch :: "card \<Rightarrow> card \<Rightarrow> bool" where
  "bookMatch h c = (h = c \<or> (suit h = suit c \<and> rank h = rank c))"

definition wildBookMatch :: "round \<Rightarrow> card \<Rightarrow> card \<Rightarrow> bool" where
  "wildBookMatch r h c =
     (h = c \<or> (isWildCard h r \<and> isWildCard c r \<and> suit h = suit c \<and> rank h = rank c))"

text \<open>
  \<open>rankGroups\<close> is a \<open>Map\<close>, iterated in the order in which its keys were first set; an
  association list kept in that order.
\<close>

fun groupPush :: "'k \<Rightarrow> card \<Rightarrow> ('k \<times> card list) list \<Rightarrow> ('k \<times> card list) list" where
  "groupPush k c [] = [(k, [c])]"
| "groupPush k c ((k', v) # g) =
     (if k' = k then (k', v @ [c]) # g else (k', v) # groupPush k c g)"

definition rankGroups :: "card list \<Rightarrow> (rank \<times> card list) list" where
  "rankGroups regularCards = foldl (\<lambda>g c. groupPush (rank c) c g) [] regularCards"

text \<open>The body of the inner loop: the book of the group with \<open>numWilds\<close> wild cards.\<close>

definition emitBook ::
  "(card \<Rightarrow> card \<Rightarrow> bool) \<Rightarrow> card list \<Rightarrow> card list \<Rightarrow> meld list \<times> key list
     \<Rightarrow> meld list \<times> key list" where
  "emitBook M hand bookCards st =
     (let cardIndices = instanceIndices M hand bookCards [] in
      if length cardIndices = length bookCards then
        (let cardIds = sort cardIndices in
         if cardIds \<in> set (snd st) then st
         else (fst st @ [\<lparr>type = book, cards = bookCards\<rparr>], snd st @ [cardIds]))
      else st)"

definition groupBook ::
  "card list \<Rightarrow> card list \<Rightarrow> card list \<Rightarrow> meld list \<times> key list \<Rightarrow> nat
     \<Rightarrow> meld list \<times> key list" where
  "groupBook hand wildCards groupCards st numWilds =
     (if length groupCards + numWilds \<ge> 3
      then emitBook bookMatch hand (groupCards @ take numWilds wildCards) st
      else st)"

definition groupBooks ::
  "card list \<Rightarrow> card list \<Rightarrow> meld list \<times> key list \<Rightarrow> rank \<times> card list
     \<Rightarrow> meld list \<times> key list" where
  "groupBooks hand wildCards st g =
     (if length (snd g) + length wildCards \<ge> 3
      then foldl (groupBook hand wildCards (snd g)) st [0..<Suc (length wildCards)]
      else st)"

definition wildBook ::
  "card list \<Rightarrow> round \<Rightarrow> card list \<Rightarrow> meld list \<times> key list \<Rightarrow> nat
     \<Rightarrow> meld list \<times> key list" where
  "wildBook hand r wildCards st bookSize =
     emitBook (wildBookMatch r) hand (take bookSize wildCards) st"

definition findBooks :: "card list \<Rightarrow> round \<Rightarrow> meld list" where
  "findBooks hand r =
     (let wildCards = filter (\<lambda>c. isWildCard c r) hand;
          regularCards = filter (\<lambda>c. \<not> isWildCard c r) hand;
          st = foldl (groupBooks hand wildCards) ([], []) (rankGroups regularCards);
          st' = (if length wildCards \<ge> 3
                 then foldl (wildBook hand r wildCards) st [3..<Suc (length wildCards)]
                 else st)
      in fst st')"

subsection \<open>Runs\<close>

definition runKeyMatch :: "round \<Rightarrow> card \<Rightarrow> card \<Rightarrow> bool" where
  "runKeyMatch r origCard c =
     (origCard = c \<or> (suit origCard = suit c \<and> rank origCard = rank c)
      \<or> (isWildCard origCard r \<and> isWildCard c r))"

text \<open>
  \<open>getRunKey\<close> returns the empty string when a card has no match; the join of no index
  is the empty string too, so the empty key is the falsy one.
\<close>

definition getRunKey :: "card list \<Rightarrow> round \<Rightarrow> card list \<Rightarrow> key" where
  "getRunKey cardSource r runCards = sort (instanceIndices (runKeyMatch r) cardSource runCards [])"

text \<open>\<open>if (runKey && !seen.has(runKey)) { seen.add(runKey); runs.push(...) }\<close>\<close>

definition pushRun ::
  "card list \<Rightarrow> round \<Rightarrow> card list \<Rightarrow> meld list \<times> key list \<Rightarrow> meld list \<times> key list" where
  "pushRun cardSource r runCards st =
     (let runKey = getRunKey cardSource r runCards in
      if runKey \<noteq> [] \<and> runKey \<notin> set (snd st)
      then (fst st @ [\<lparr>type = run, cards = runCards\<rparr>], snd st @ [runKey])
      else st)"

fun isConsecutive :: "rank list \<Rightarrow> bool" where
  "isConsecutive (x # y # zs) =
     (if rankIndex x = - 1 \<or> rankIndex y = - 1 \<or> rankIndex y - rankIndex x \<noteq> 1 then False
      else isConsecutive (y # zs))"
| "isConsecutive _ = True"

text \<open>The pairs \<open>(i, j)\<close> of a nested loop \<open>for i < n; for j from i + d; j < n\<close>, in order.\<close>

definition loopPairs :: "nat \<Rightarrow> nat \<Rightarrow> (nat \<times> nat) list" where
  "loopPairs d n = concat (map (\<lambda>i. map (\<lambda>j. (i, j)) [i + d..<n]) [0..<n])"

definition consecutiveStep ::
  "card list \<Rightarrow> round \<Rightarrow> card list \<Rightarrow> meld list \<times> key list \<Rightarrow> nat \<times> nat
     \<Rightarrow> meld list \<times> key list" where
  "consecutiveStep cardSource r rankPositions st ij =
     (let sequence = take (snd ij + 1 - fst ij) (drop (fst ij) rankPositions) in
      if isConsecutive (map rank sequence) then pushRun cardSource r sequence st else st)"

text \<open>Strategy 1: fill the gap between the cards at positions \<open>i\<close> and \<open>j\<close>.\<close>

definition gapStep ::
  "card list \<Rightarrow> round \<Rightarrow> card list \<Rightarrow> card list \<Rightarrow> meld list \<times> key list \<Rightarrow> nat \<times> nat
     \<Rightarrow> meld list \<times> key list" where
  "gapStep cardSource r rankPositions wildCards st ij =
     (let i = fst ij; j = snd ij;
          startCard = rankPositions ! i;
          endCard = rankPositions ! j;
          startIndex = rankIndex (rank startCard);
          endIndex = rankIndex (rank endCard)
      in if startIndex = - 1 \<or> endIndex = - 1 then st
         else if startIndex \<ge> endIndex then st
         else
           (let totalCardsNeeded = endIndex - startIndex + 1;
                cardsWeHave = int j - int i + 1;
                wildsNeeded = totalCardsNeeded - cardsWeHave
            in if wildsNeeded \<ge> 0 \<and> wildsNeeded \<le> int (length wildCards) \<and> totalCardsNeeded \<ge> 3
               then
                 (let sequence = [startCard] @ map (\<lambda>k. rankPositions ! k) [i + 1..<j]
                        @ (if wildsNeeded > 0 then take (nat wildsNeeded) wildCards else [])
                        @ [endCard]
                  in if length sequence \<ge> 3 then pushRun cardSource r sequence st else st)
               else st))"

text \<open>Strategy 2: extend two consecutive cards by one wild card, after and before.\<close>

definition pairStep ::
  "card list \<Rightarrow> round \<Rightarrow> card list \<Rightarrow> card list \<Rightarrow> meld list \<times> key list \<Rightarrow> nat
     \<Rightarrow> meld list \<times> key list" where
  "pairStep cardSource r rankPositions wildCards st i =
     (let card1 = rankPositions ! i;
          card2 = rankPositions ! (i + 1);
          index1 = rankIndex (rank card1);
          index2 = rankIndex (rank card2)
      in if index1 = - 1 \<or> index2 = - 1 then st
         else if index2 - index1 = 1 \<and> length wildCards > 0 then
           (let st1 = (if index2 < int (length RANK_ORDER) - 1
                       then pushRun cardSource r ([card1, card2] @ take 1 wildCards) st
                       else st)
            in if index1 > 0
               then pushRun cardSource r (take 1 wildCards @ [card1, card2]) st1
               else st1)
         else st)"

text \<open>
  Strategy 3: extend a run found so far by a wild card that is not in it.  The state is
  \<open>(extendedRuns, seen)\<close>; \<open>includes\<close> compares by reference.
\<close>

definition extendStep ::
  "card list \<Rightarrow> round \<Rightarrow> card list \<Rightarrow> meld list \<times> key list \<Rightarrow> meld
     \<Rightarrow> meld list \<times> key list" where
  "extendStep cardSource r wildCards st rn =
     (let runRanks = map rank (filter (\<lambda>c. \<not> isWildCard c r) (cards rn)) in
      if length runRanks = 0 then st
      else
        (let wildsInRun = filter (\<lambda>c. isWildCard c r) (cards rn);
             unusedWilds = filter (\<lambda>wc. wc \<notin> set wildsInRun) wildCards
         in if length unusedWilds \<le> 0 then st
            else
              (let firstIndex = rankIndex (hd runRanks);
                   lastIndex = rankIndex (last runRanks)
               in if firstIndex = - 1 \<or> lastIndex = - 1 then st
                  else
                    (let st1 = (if firstIndex > 0 \<and> length unusedWilds > 0
                                then pushRun cardSource r (hd unusedWilds # cards rn) st
                                else st)
                     in if lastIndex < int (length RANK_ORDER) - 1 \<and> length unusedWilds > 0
                        then pushRun cardSource r (cards rn @ [hd unusedWilds]) st1
                        else st1))))"

text \<open>
  The regular cards of a suit group are never wild, hence never Jokers, so the comparator
  of \<open>regularCards.sort\<close> never meets the index -1 and orders by \<open>rankIndex\<close>; the sort of
  an array is stable, as \<open>sort_key\<close> is.
\<close>

definition findRunsInSuit :: "card list \<Rightarrow> round \<Rightarrow> card list option \<Rightarrow> meld list" where
  "findRunsInSuit suitCards r originalCards =
     (let cardSource = (case originalCards of Some oc \<Rightarrow> oc | None \<Rightarrow> suitCards);
          regularCards = filter (\<lambda>c. \<not> isWildCard c r) suitCards;
          wildCards = filter (\<lambda>c. isWildCard c r) suitCards;
          rankPositions = sort_key (\<lambda>c. rankIndex (rank c)) regularCards;
          n = length rankPositions;
          st0 = foldl (consecutiveStep cardSource r rankPositions) ([], []) (loopPairs 2 n)
      in if length wildCards > 0 \<and> n > 0 then
           (let st1 = foldl (gapStep cardSource r rankPositions wildCards) st0 (loopPairs 1 n);
                st2 = foldl (pairStep cardSource r rankPositions wildCards) st1 [0..<n - 1];
                ext = foldl (extendStep cardSource r wildCards) ([], snd st2) (fst st2)
            in fst st2 @ fst ext)
         else fst st0)"

definition allSuits :: "suit list" where
  "allSuits = [clubs, diamonds, hearts, spades, stars]"

definition suitGroupStep ::
  "round \<Rightarrow> (suit \<times> card list) list \<Rightarrow> card \<Rightarrow> (suit \<times> card list) list" where
  "suitGroupStep r g c =
     (if rank c = Joker \<or> isWildCard c r
      then foldl (\<lambda>g' s. groupPush s c g') g allSuits
      else groupPush (suit c) c g)"

definition suitGroups :: "card list \<Rightarrow> round \<Rightarrow> (suit \<times> card list) list" where
  "suitGroups hand r = foldl (suitGroupStep r) [] hand"

text \<open>The key of \<open>findRuns\<close>: for every card of the run, all the indices that match it.\<close>

definition matchingIndices :: "card list \<Rightarrow> card \<Rightarrow> nat list" where
  "matchingIndices hand c =
     filter (\<lambda>i. hand ! i = c \<or> (suit (hand ! i) = suit c \<and> rank (hand ! i) = rank c))
       [0..<length hand]"

definition keepRun :: "card list \<Rightarrow> meld list \<times> key list \<Rightarrow> meld \<Rightarrow> meld list \<times> key list" where
  "keepRun hand st rn =
     (let cardIds = sort (concat (map (matchingIndices hand) (cards rn))) in
      if cardIds \<notin> set (snd st) then (fst st @ [rn], snd st @ [cardIds]) else st)"

definition suitRuns ::
  "card list \<Rightarrow> round \<Rightarrow> meld list \<times> key list \<Rightarrow> suit \<times> card list \<Rightarrow> meld list \<times> key list" where
  "suitRuns hand r st g = foldl (keepRun hand) st (findRunsInSuit (snd g) r (Some hand))"

definition findRuns :: "card list \<Rightarrow> round \<Rightarrow> meld list" where
  "findRuns hand r = fst (foldl (suitRuns hand r) ([], []) (suitGroups hand r))"

definition findMelds :: "card list \<Rightarrow> round \<Rightarrow> meld list" where
  "findMelds hand r = (if length hand < 3 then [] else findBooks hand r @ findRuns hand r)"

section \<open>Meld selection and go-out validation (meldFinder.ts)\<close>

text \<open>
  \<open>availableIndices\<close> and \<open>tempAvailable\<close> are \<open>Set\<close>s of indices, iterated in insertion
  order: lists of indices, from which \<open>delete\<close> removes an element.  One card of a meld
  is matched first by reference (\<open>hand.findIndex\<close>, over the hand), then by the value
  comparison \<open>M\<close> over the available indices.
\<close>

definition matchCard ::
  "(card \<Rightarrow> card \<Rightarrow> bool) \<Rightarrow> card list \<Rightarrow> nat list \<Rightarrow> card \<Rightarrow> nat option" where
  "matchCard M hand tempAvailable meldCard =
     (case find (\<lambda>idx. hand ! idx = meldCard \<and> idx \<in> set tempAvailable) [0..<length hand] of
        Some directIndex \<Rightarrow> Some directIndex
      | None \<Rightarrow> find (\<lambda>idx. M (hand ! idx) meldCard) tempAvailable)"

text \<open>
  The loop over \<open>meld.cards\<close>: \<open>Some meldIndices\<close> when every card found its index,
  \<open>None\<close> at the first card that did not.
\<close>

fun matchMeld ::
  "(card \<Rightarrow> card \<Rightarrow> bool) \<Rightarrow> card list \<Rightarrow> nat list \<Rightarrow> card list \<Rightarrow> nat list option" where
  "matchMeld M hand tempAvailable [] = Some []"
| "matchMeld M hand tempAvailable (meldCard # rest) =
     (case matchCard M hand tempAvailable meldCard of
        None \<Rightarrow> None
      | Some matchedIndex \<Rightarrow>
          (case matchMeld M hand (removeAll matchedIndex tempAvailable) rest of
             None \<Rightarrow> None
           | Some meldIndices \<Rightarrow> Some (matchedIndex # meldIndices)))"

definition wildMatch :: "round \<Rightarrow> card \<Rightarrow> card \<Rightarrow> bool" where
  "wildMatch r handCard meldCard =
     (let bothWild = isWildCard handCard r \<and> isWildCard meldCard r;
          suitRankMatch = suit handCard = suit meldCard \<and> rank handCard = rank meldCard
      in suitRankMatch \<or> bothWild)"

text \<open>
  \<open>canAllCardsFormMelds\<close>: the state of the loop over the melds is
  \<open>(usedIndices, availableIndices)\<close>; \<open>None\<close> is the \<open>return false\<close> inside the loop.
\<close>

fun matchAllMelds ::
  "card list \<Rightarrow> round \<Rightarrow> nat list \<times> nat list \<Rightarrow> meld list \<Rightarrow> (nat list \<times> nat list) option" where
  "matchAllMelds hand r st [] = Some st"
| "matchAllMelds hand r st (m # ms) =
     (case matchMeld (wildMatch r) hand (snd st) (cards m) of
        None \<Rightarrow> None
      | Some meldIndices \<Rightarrow>
          matchAllMelds hand r
            (List.union (fst st) meldIndices, filter (\<lambda>i. i \<notin> set meldIndices) (snd st)) ms)"

definition canAllCardsFormMelds :: "card list \<Rightarrow> meld list \<Rightarrow> round \<Rightarrow> bool" where
  "canAllCardsFormMelds hand melds r =
     (if length hand = 0 then True
      else if length melds = 0 then False
      else (case matchAllMelds hand r ([], [0..<length hand]) melds of
              None \<Rightarrow> False
            | Some st \<Rightarrow> length (remdups (fst st)) = length hand))"

record selection =
  melds :: "meld list"
  usedCards :: nat

text \<open>
  The loop of \<open>findBestMeldCombination\<close> over the sorted melds; the state is
  \<open>(selectedMelds, availableIndices)\<close>.  A meld that cannot be matched leaves it unchanged.
\<close>

definition selectStep :: "card list \<Rightarrow> meld list \<times> nat list \<Rightarrow> meld \<Rightarrow> meld list \<times> nat list" where
  "selectStep hand st m =
     (case matchMeld sameSuitRank hand (snd st) (cards m) of
        None \<Rightarrow> st
      | Some meldIndices \<Rightarrow> (fst st @ [m], filter (\<lambda>i. i \<notin> set meldIndices) (snd st)))"

text \<open>The stable sort by \<open>b.cards.length - a.cards.length\<close>: larger melds first.\<close>

definition sortedMelds :: "meld list \<Rightarrow> meld list" where
  "sortedMelds ms = sort_key (\<lambda>m. - int (length (cards m))) ms"

definition findBestMeldCombination :: "card list \<Rightarrow> meld list \<Rightarrow> selection" where
  "findBestMeldCombination hand ms =
     (if length ms = 0 then \<lparr>melds = [], usedCards = 0\<rparr>
      else
        (let st = foldl (selectStep hand) ([], [0..<length hand]) (sortedMelds ms)
         in \<lparr>melds = fst st, usedCards = length hand - length (snd st)\<rparr>))"

text \<open>
  The go-out check of the turn screen (PlayerTurn.tsx, \<open>canGoOutWithHand\<close>), called on
  the hand that remains after a discard with the melds of \<open>findMelds\<close> on that hand.  The
  file has its own copy of \<open>findBestMeldCombination\<close>, the same code statement by
  statement; the round is not read and the message for the display is left out.
\<close>

record go_out_result =
  success :: bool
  gmelds :: "meld list"

definition canGoOutWithHand :: "card list \<Rightarrow> meld list \<Rightarrow> round \<Rightarrow> go_out_result" where
  "canGoOutWithHand hand ms r =
     (if length hand = 0 then \<lparr>success = False, gmelds = []\<rparr>
      else if length ms = 0 then \<lparr>success = False, gmelds = []\<rparr>
      else
        (let bestCombination = findBestMeldCombination hand ms in
         if usedCards bestCombination = length hand
         then \<lparr>success = True, gmelds = melds bestCombination\<rparr>
         else \<lparr>success = False, gmelds = []\<rparr>))"

record helper_result =
  hmelds :: "meld list"
  leftoverCards :: "card list"
  canGoOut :: bool

text \<open>The leftover loop of the helper: every meld card marks the first unused match.\<close>

definition markUsed :: "card list \<Rightarrow> nat list \<Rightarrow> card \<Rightarrow> nat list" where
  "markUsed hand usedIndices meldCard =
     (case find (\<lambda>i. i \<notin> set usedIndices \<and> bookMatch (hand ! i) meldCard) [0..<length hand] of
        None \<Rightarrow> usedIndices
      | Some i \<Rightarrow> usedIndices @ [i])"

definition findBestMeldCombinationForHelper :: "card list \<Rightarrow> round \<Rightarrow> helper_result" where
  "findBestMeldCombinationForHelper hand r =
     (if length hand = 0 then \<lparr>hmelds = [], leftoverCards = [], canGoOut = False\<rparr>
      else
        (let allMelds = findMelds hand r in
         if length allMelds = 0 then \<lparr>hmelds = [], leftoverCards = hand, canGoOut = False\<rparr>
         else
           (let best = findBestMeldCombination hand allMelds;
                usedIndices = foldl (markUsed hand) [] (concat (map cards (melds best)));
                leftover = map (\<lambda>i. hand ! i)
                             (filter (\<lambda>i. i \<notin> set usedIndices) [0..<length hand])
            in \<lparr>hmelds = melds best, leftoverCards = leftover,
                canGoOut = (length leftover \<le> 1)\<rparr>)))"

section \<open>Discard advisor (meldFinder.ts, \<open>suggestDiscard\<close>)\<close>

definition getCardPoints :: "round \<Rightarrow> card \<Rightarrow> int" where
  "getCardPoints r c =
     (if rank c = Joker then 50
      else if isWildCard c r then 20
      else if rank c = RJ then 11
      else if rank c = RQ then 12
      else if rank c = RK then 13
      else (case parseIntRank (rank c) of Some n \<Rightarrow> n | None \<Rightarrow> 0))"

text \<open>
  \<open>xs.reduce(f)\<close> without an initial value starts from \<open>xs[0]\<close> and throws on an empty
  array (\<open>None\<close>); every call in \<open>suggestDiscard\<close> is on an array known to be non-empty.
\<close>

definition reduce :: "('a \<Rightarrow> 'a \<Rightarrow> 'a) \<Rightarrow> 'a list \<Rightarrow> 'a option" where
  "reduce f xs = (case xs of [] \<Rightarrow> None | x # rest \<Rightarrow> Some (foldl f x rest))"

definition pickHighest :: "round \<Rightarrow> card \<Rightarrow> card \<Rightarrow> card" where
  "pickHighest r highest c = (if getCardPoints r c > getCardPoints r highest then c else highest)"

definition pickLowest :: "round \<Rightarrow> card \<Rightarrow> card \<Rightarrow> card" where
  "pickLowest r lowest c = (if getCardPoints r c < getCardPoints r lowest then c else lowest)"

text \<open>\<open>cards.filter((_, idx) => idx !== discardIndex)\<close>\<close>

definition withoutIndex :: "nat \<Rightarrow> 'a list \<Rightarrow> 'a list" where
  "withoutIndex discardIndex xs = take discardIndex xs @ drop (Suc discardIndex) xs"

text \<open>Strategy 1: the first index whose removal leaves a hand that is melded entirely.\<close>

definition goOutIndex :: "card list \<Rightarrow> round \<Rightarrow> nat option" where
  "goOutIndex hand r =
     find (\<lambda>discardIndex.
             (let remainingHand = withoutIndex discardIndex hand in
              if length remainingHand < 3 then False
              else canAllCardsFormMelds remainingHand (findMelds remainingHand r) r))
       [0..<length hand]"

text \<open>Strategies 2 and 5: the rule when no card of the hand is in a meld.\<close>

definition noMeldDiscard :: "card list \<Rightarrow> round \<Rightarrow> bool \<Rightarrow> card option" where
  "noMeldDiscard hand r isFinalTurn =
     (if isFinalTurn then reduce (pickHighest r) hand
      else
        (let nonWildCards = filter (\<lambda>c. \<not> isWildCard c r) hand in
         if length nonWildCards > 0 then reduce (pickHighest r) nonWildCards
         else reduce (pickLowest r) hand))"

text \<open>
  Strategy 3: the keys \<open>`${card.suit}-${card.rank}`\<close> are pairs; \<open>handCounts\<close> and
  \<open>meldCounts\<close> count the cards of a key.  The state of the loop over the hand is
  \<open>(usedIndices, unusedCards)\<close>.
\<close>

definition cardKey :: "card \<Rightarrow> suit \<times> rank" where
  "cardKey c = (suit c, rank c)"

definition keyCount :: "card list \<Rightarrow> suit \<times> rank \<Rightarrow> nat" where
  "keyCount xs k = length (filter (\<lambda>c. cardKey c = k) xs)"

definition unusedStep ::
  "card list \<Rightarrow> card list \<Rightarrow> nat list \<times> card list \<Rightarrow> nat \<Rightarrow> nat list \<times> card list" where
  "unusedStep hand meldCards st index =
     (let c = hand ! index;
          k = cardKey c;
          handCount = keyCount hand k;
          meldCount = keyCount meldCards k;
          markedAsUsed = length (filter (\<lambda>i. i \<in> set (fst st) \<and> cardKey (hand ! i) = k) [0..<index])
      in if meldCount \<ge> handCount then (fst st @ [index], snd st)
         else if markedAsUsed < meldCount then (fst st @ [index], snd st)
         else (fst st, snd st @ [c]))"

definition unusedCardsOf :: "card list \<Rightarrow> meld list \<Rightarrow> card list" where
  "unusedCardsOf hand ms =
     snd (foldl (unusedStep hand (concat (map cards ms))) ([], []) [0..<length hand])"

text \<open>
  Strategy 6: an unused card is a valid discard when the rest of the hand still has a
  meld; both branches of the inner test push the card.
\<close>

definition isValidDiscard :: "card list \<Rightarrow> round \<Rightarrow> card \<Rightarrow> bool" where
  "isValidDiscard hand r unusedCard =
     (case find (\<lambda>i. hand ! i = unusedCard) [0..<length hand] of
        None \<Rightarrow> False
      | Some discardIndex \<Rightarrow>
          (let remainingHand = withoutIndex discardIndex hand in
           if length remainingHand < 3 then False
           else
             (let remainingMelds = findMelds remainingHand r in
              if length remainingMelds > 0 then
                (if canAllCardsFormMelds remainingHand remainingMelds r then True else True)
              else False)))"

text \<open>Prefer the highest non-wild card of the candidates, else the lowest wild one.\<close>

definition preferNonWild :: "round \<Rightarrow> card list \<Rightarrow> card option" where
  "preferNonWild r candidates =
     (let nonWild = filter (\<lambda>c. \<not> isWildCard c r) candidates;
          wild = filter (\<lambda>c. isWildCard c r) candidates
      in if length nonWild > 0 then reduce (pickHighest r) nonWild
         else if length wild > 0 then reduce (pickLowest r) wild
         else None)"

text \<open>\<open>None\<close> is the \<open>null\<close> of the source.\<close>

definition suggestDiscard :: "card list \<Rightarrow> round \<Rightarrow> meld list \<Rightarrow> bool \<Rightarrow> card option" where
  "suggestDiscard hand r ms isFinalTurn =
     (if length hand = 0 then None
      else
        (case goOutIndex hand r of
           Some discardIndex \<Rightarrow> Some (hand ! discardIndex)
         | None \<Rightarrow>
             if length ms = 0 then noMeldDiscard hand r isFinalTurn
             else
               (let unusedCards = unusedCardsOf hand ms in
                if length unusedCards = 0 then reduce (pickLowest r) hand
                else if length unusedCards = length hand then noMeldDiscard hand r isFinalTurn
                else
                  (let validDiscards = filter (isValidDiscard hand r) unusedCards in
                   case (if length validDiscards > 0 then preferNonWild r validDiscards else None) of
                     Some c \<Rightarrow> Some c
                   | None \<Rightarrow>
                       (case preferNonWild r unusedCards of
                          Some c \<Rightarrow> Some c
                        | None \<Rightarrow>
                            if length unusedCards > 0 then Some (hd unusedCards)
                            else Some (hd hand))))))"

section \<open>Draw advisor (DrawRecommendation.tsx)\<close>

datatype recommendation = Take | Skip | Maybe

text \<open>
  \<open>calculateMeldValue\<close>: the set \<open>usedCards\<close> of keys, in insertion order, and the sum of
  the points of one card per key.
\<close>

definition usedKeys :: "meld list \<Rightarrow> (suit \<times> rank) list" where
  "usedKeys ms =
     foldl (\<lambda>ks c. if cardKey c \<in> set ks then ks else ks @ [cardKey c]) [] (concat (map cards ms))"

definition calculateMeldValue :: "card list \<Rightarrow> meld list \<Rightarrow> round \<Rightarrow> int" where
  "calculateMeldValue hand ms r =
     foldl (\<lambda>meldValue k. meldValue + calculateCardPoints \<lparr>oid = 0, suit = fst k, rank = snd k\<rparr> r)
       0 (usedKeys ms)"

definition handValue :: "card list \<Rightarrow> round \<Rightarrow> int" where
  "handValue hand r = foldl (\<lambda>sum c. sum + calculateCardPoints c r) 0 hand"

definition DrawRecommendation :: "card \<Rightarrow> card list \<Rightarrow> round \<Rightarrow> meld list \<Rightarrow> recommendation" where
  "DrawRecommendation discardCard hand r ms =
     (let handWithDiscard = hand @ [discardCard];
          meldsWithDiscard = findMelds handWithDiscard r;
          currentHandValue = handValue hand r;
          currentMeldValue = calculateMeldValue hand ms r;
          newHandValue = handValue handWithDiscard r;
          newMeldValue = calculateMeldValue handWithDiscard meldsWithDiscard r;
          currentRemaining = currentHandValue - currentMeldValue;
          newRemaining = newHandValue - newMeldValue;
          improvement = currentRemaining - newRemaining;
          discardPoints = calculateCardPoints discardCard r;
          isDiscardWild = isWildCard discardCard r;
          discardHelpsMelds =
            (length meldsWithDiscard > length ms \<or> newMeldValue > currentMeldValue)
      in if isDiscardWild then Take
         else if discardHelpsMelds \<and> improvement > 0 then Take
         else if discardHelpsMelds then (if discardPoints \<le> 5 then Take else Maybe)
         else if discardPoints \<le> 3 then Maybe
         else if discardPoints \<ge> 10 then Skip
         else Maybe)"

section \<open>The enumeration over an explicit store\<close>

text \<open>
  \<open>findMelds\<close> once more, with the arrays of cards where JavaScript has them: in a store,
  under an address.  \<open>filter\<close>, \<open>slice\<close>, \<open>map\<close>, a spread and an array literal make
  a new array (\<open>alloc\<close>); \<open>push\<close> and \<open>sort\<close> change the array they are called on.
  The hand is the array under the address that is passed in.  A meld object holds the
  address of its \<open>cards\<close>.  Arrays of indices, the \<open>seen\<close> sets and the lists of melds
  hold no cards and stay values; the keys are computed from the contents of the arrays
  by the functions above.  \<open>rankPositions\<close> pairs every card of the sorted
  \<open>regularCards\<close> with its position and is read through that array.  Where the source
  returns from a loop body after it has made an array, the state keeps the store with
  that array.
\<close>

type_synonym addr = nat

record store =
  arrays :: "addr \<Rightarrow> card list"
  fresh :: addr

definition alloc :: "card list \<Rightarrow> store \<Rightarrow> addr \<times> store" where
  "alloc xs s = (fresh s, \<lparr>arrays = (arrays s)(fresh s := xs), fresh = Suc (fresh s)\<rparr>)"

definition push :: "addr \<Rightarrow> card \<Rightarrow> store \<Rightarrow> store" where
  "push a c s = s\<lparr>arrays := (arrays s)(a := arrays s a @ [c])\<rparr>"

definition sortInPlace :: "addr \<Rightarrow> store \<Rightarrow> store" where
  "sortInPlace a s = s\<lparr>arrays := (arrays s)(a := sort_key (\<lambda>c. rankIndex (rank c)) (arrays s a))\<rparr>"

record smeld =
  stype :: meld_type
  scards :: addr

definition deref :: "store \<Rightarrow> smeld \<Rightarrow> meld" where
  "deref s m = \<lparr>type = stype m, cards = arrays s (scards m)\<rparr>"

type_synonym sstate = "smeld list \<times> key list \<times> store"

definition groupPush_st ::
  "'k \<Rightarrow> card \<Rightarrow> ('k \<times> addr) list \<times> store \<Rightarrow> ('k \<times> addr) list \<times> store" where
  "groupPush_st k c gs =
     (case map_of (fst gs) k of
        None \<Rightarrow> (let (a, s1) = alloc [] (snd gs) in (fst gs @ [(k, a)], push a c s1))
      | Some a \<Rightarrow> (fst gs, push a c (snd gs)))"

definition rankGroups_st :: "addr \<Rightarrow> store \<Rightarrow> (rank \<times> addr) list \<times> store" where
  "rankGroups_st regularCards s =
     foldl (\<lambda>gs c. groupPush_st (rank c) c gs) ([], s) (arrays s regularCards)"

definition emitBook_st :: "(card \<Rightarrow> card \<Rightarrow> bool) \<Rightarrow> addr \<Rightarrow> addr \<Rightarrow> sstate \<Rightarrow> sstate" where
  "emitBook_st M hand bookCards st =
     (case st of (books, seen, s) \<Rightarrow>
        (let cardIndices = instanceIndices M (arrays s hand) (arrays s bookCards) [] in
         if length cardIndices = length (arrays s bookCards) then
           (let cardIds = sort cardIndices in
            if cardIds \<in> set seen then st
            else (books @ [\<lparr>stype = book, scards = bookCards\<rparr>], seen @ [cardIds], s))
         else st))"

definition groupBook_st :: "addr \<Rightarrow> addr \<Rightarrow> addr \<Rightarrow> sstate \<Rightarrow> nat \<Rightarrow> sstate" where
  "groupBook_st hand wildCards groupCards st numWilds =
     (case st of (books, seen, s) \<Rightarrow>
        if length (arrays s groupCards) + numWilds \<ge> 3 then
          (let (sl, s1) = alloc (take numWilds (arrays s wildCards)) s;
               (bookCards, s2) = alloc (arrays s1 groupCards @ arrays s1 sl) s1
           in emitBook_st bookMatch hand bookCards (books, seen, s2))
        else st)"

definition groupBooks_st :: "addr \<Rightarrow> addr \<Rightarrow> sstate \<Rightarrow> rank \<times> addr \<Rightarrow> sstate" where
  "groupBooks_st hand wildCards st g =
     (case st of (books, seen, s) \<Rightarrow>
        if length (arrays s (snd g)) + length (arrays s wildCards) \<ge> 3
        then foldl (groupBook_st hand wildCards (snd g)) st [0..<Suc (length (arrays s wildCards))]
        else st)"

definition wildBook_st :: "addr \<Rightarrow> round \<Rightarrow> addr \<Rightarrow> sstate \<Rightarrow> nat \<Rightarrow> sstate" where
  "wildBook_st hand r wildCards st bookSize =
     (case st of (books, seen, s) \<Rightarrow>
        (let (bookCards, s1) = alloc (take bookSize (arrays s wildCards)) s
         in emitBook_st (wildBookMatch r) hand bookCards (books, seen, s1)))"

definition findBooks_st :: "addr \<Rightarrow> round \<Rightarrow> store \<Rightarrow> smeld list \<times> store" where
  "findBooks_st hand r s =
     (let (wildCards, s1) = alloc (filter (\<lambda>c. isWildCard c r) (arrays s hand)) s;
          (regularCards, s2) = alloc (filter (\<lambda>c. \<not> isWildCard c r) (arrays s1 hand)) s1;
          (groups, s3) = rankGroups_st regularCards s2;
          st = foldl (groupBooks_st hand wildCards) ([], [], s3) groups;
          st' = (if length (arrays (snd (snd st)) wildCards) \<ge> 3
                 then foldl (wildBook_st hand r wildCards) st
                        [3..<Suc (length (arrays (snd (snd st)) wildCards))]
                 else st)
      in (fst st', snd (snd st')))"

definition pushRun_st :: "addr \<Rightarrow> round \<Rightarrow> addr \<Rightarrow> sstate \<Rightarrow> sstate" where
  "pushRun_st cardSource r runCards st =
     (case st of (runs, seen, s) \<Rightarrow>
        (let runKey = getRunKey (arrays s cardSource) r (arrays s runCards) in
         if runKey \<noteq> [] \<and> runKey \<notin> set seen
         then (runs @ [\<lparr>stype = run, scards = runCards\<rparr>], seen @ [runKey], s)
         else st))"

definition consecutiveStep_st :: "addr \<Rightarrow> round \<Rightarrow> addr \<Rightarrow> sstate \<Rightarrow> nat \<times> nat \<Rightarrow> sstate" where
  "consecutiveStep_st cardSource r rankPositions st ij =
     (case st of (runs, seen, s) \<Rightarrow>
        (let sequence = take (snd ij + 1 - fst ij) (drop (fst ij) (arrays s rankPositions)) in
         if isConsecutive (map rank sequence) then
           (let (runCards, s1) = alloc sequence s
            in pushRun_st cardSource r runCards (runs, seen, s1))
         else st))"

definition gapStep_st :: "addr \<Rightarrow> round \<Rightarrow> addr \<Rightarrow> addr \<Rightarrow> sstate \<Rightarrow> nat \<times> nat \<Rightarrow> sstate" where
  "gapStep_st cardSource r rankPositions wildCards st ij =
     (case st of (runs, seen, s) \<Rightarrow>
        (let i = fst ij; j = snd ij;
             startCard = arrays s rankPositions ! i;
             endCard = arrays s rankPositions ! j;
             startIndex = rankIndex (rank startCard);
             endIndex = rankIndex (rank endCard)
         in if startIndex = - 1 \<or> endIndex = - 1 then st
            else if startIndex \<ge> endIndex then st
            else
              (let totalCardsNeeded = endIndex - startIndex + 1;
                   cardsWeHave = int j - int i + 1;
                   wildsNeeded = totalCardsNeeded - cardsWeHave
               in if wildsNeeded \<ge> 0 \<and> wildsNeeded \<le> int (length (arrays s wildCards))
                       \<and> totalCardsNeeded \<ge> 3
                  then
                    (let (sequence, s1) = alloc [startCard] s;
                         s2 = foldl (\<lambda>s' k. push sequence (arrays s' rankPositions ! k) s') s1 [i + 1..<j];
                         s3 = (if wildsNeeded > 0
                               then (let (sl, s') = alloc (take (nat wildsNeeded) (arrays s2 wildCards)) s2
                                     in foldl (\<lambda>s'' c. push sequence c s'') s' (arrays s' sl))
                               else s2);
                         s4 = push sequence endCard s3
                     in if length (arrays s4 sequence) \<ge> 3
                        then pushRun_st cardSource r sequence (runs, seen, s4)
                        else (runs, seen, s4))
                  else st)))"

definition pairStep_st :: "addr \<Rightarrow> round \<Rightarrow> addr \<Rightarrow> addr \<Rightarrow> sstate \<Rightarrow> nat \<Rightarrow> sstate" where
  "pairStep_st cardSource r rankPositions wildCards st i =
     (case st of (runs, seen, s) \<Rightarrow>
        (let card1 = arrays s rankPositions ! i;
             card2 = arrays s rankPositions ! (i + 1);
             index1 = rankIndex (rank card1);
             index2 = rankIndex (rank card2)
         in if index1 = - 1 \<or> index2 = - 1 then st
            else if index2 - index1 = 1 \<and> length (arrays s wildCards) > 0 then
              (let st1 = (if index2 < int (length RANK_ORDER) - 1
                          then (let (sl, s1) = alloc (take 1 (arrays s wildCards)) s;
                                    (extendedAfter, s2) = alloc ([card1, card2] @ arrays s1 sl) s1
                                in pushRun_st cardSource r extendedAfter (runs, seen, s2))
                          else st)
               in if index1 > 0
                  then (case st1 of (runs1, seen1, s1) \<Rightarrow>
                          (let (sl, s2) = alloc (take 1 (arrays s1 wildCards)) s1;
                               (extendedBefore, s3) = alloc (arrays s2 sl @ [card1, card2]) s2
                           in pushRun_st cardSource r extendedBefore (runs1, seen1, s3)))
                  else st1)
            else st))"

definition extendStep_st :: "addr \<Rightarrow> round \<Rightarrow> addr \<Rightarrow> sstate \<Rightarrow> smeld \<Rightarrow> sstate" where
  "extendStep_st cardSource r wildCards st rn =
     (case st of (ext, seen, s) \<Rightarrow>
        (let (regularInRun, s1) = alloc (filter (\<lambda>c. \<not> isWildCard c r) (arrays s (scards rn))) s;
             runRanks = map rank (arrays s1 regularInRun)
         in if length runRanks = 0 then (ext, seen, s1)
            else
              (let (wildsInRun, s2) = alloc (filter (\<lambda>c. isWildCard c r) (arrays s1 (scards rn))) s1;
                   (unusedWilds, s3) =
                     alloc (filter (\<lambda>wc. wc \<notin> set (arrays s2 wildsInRun)) (arrays s2 wildCards)) s2
               in if length (arrays s3 unusedWilds) \<le> 0 then (ext, seen, s3)
                  else
                    (let firstIndex = rankIndex (hd runRanks);
                         lastIndex = rankIndex (last runRanks)
                     in if firstIndex = - 1 \<or> lastIndex = - 1 then (ext, seen, s3)
                        else
                          (let st1 = (if firstIndex > 0 \<and> length (arrays s3 unusedWilds) > 0
                                      then (let (extendedBefore, s4) =
                                                  alloc (hd (arrays s3 unusedWilds) # arrays s3 (scards rn)) s3
                                            in pushRun_st cardSource r extendedBefore (ext, seen, s4))
                                      else (ext, seen, s3))
                           in case st1 of (ext1, seen1, s5) \<Rightarrow>
                                if lastIndex < int (length RANK_ORDER) - 1
                                     \<and> length (arrays s5 unusedWilds) > 0
                                then (let (extendedAfter, s6) =
                                            alloc (arrays s5 (scards rn) @ [hd (arrays s5 unusedWilds)]) s5
                                      in pushRun_st cardSource r extendedAfter (ext1, seen1, s6))
                                else st1)))))"

definition findRunsInSuit_st ::
  "addr \<Rightarrow> round \<Rightarrow> addr option \<Rightarrow> store \<Rightarrow> smeld list \<times> store" where
  "findRunsInSuit_st suitCards r originalCards s =
     (let cardSource = (case originalCards of Some oc \<Rightarrow> oc | None \<Rightarrow> suitCards);
          (regularCards, s1) = alloc (filter (\<lambda>c. \<not> isWildCard c r) (arrays s suitCards)) s;
          (wildCards, s2) = alloc (filter (\<lambda>c. isWildCard c r) (arrays s1 suitCards)) s1;
          s3 = sortInPlace regularCards s2;
          n = length (arrays s3 regularCards);
          st0 = foldl (consecutiveStep_st cardSource r regularCards) ([], [], s3) (loopPairs 2 n)
      in if length (arrays s3 wildCards) > 0 \<and> n > 0 then
           (let st1 = foldl (gapStep_st cardSource r regularCards wildCards) st0 (loopPairs 1 n);
                st2 = foldl (pairStep_st cardSource r regularCards wildCards) st1 [0..<n - 1];
                ext = foldl (extendStep_st cardSource r wildCards)
                        ([], fst (snd st2), snd (snd st2)) (fst st2)
            in (fst st2 @ fst ext, snd (snd ext)))
         else (fst st0, snd (snd st0)))"

definition suitGroupStep_st ::
  "round \<Rightarrow> (suit \<times> addr) list \<times> store \<Rightarrow> card \<Rightarrow> (suit \<times> addr) list \<times> store" where
  "suitGroupStep_st r gs c =
     (if rank c = Joker \<or> isWildCard c r
      then foldl (\<lambda>gs' su. groupPush_st su c gs') gs allSuits
      else groupPush_st (suit c) c gs)"

definition suitGroups_st :: "addr \<Rightarrow> round \<Rightarrow> store \<Rightarrow> (suit \<times> addr) list \<times> store" where
  "suitGroups_st hand r s = foldl (suitGroupStep_st r) ([], s) (arrays s hand)"

definition keepRun_st :: "addr \<Rightarrow> sstate \<Rightarrow> smeld \<Rightarrow> sstate" where
  "keepRun_st hand st rn =
     (case st of (runs, seen, s) \<Rightarrow>
        (let cardIds = sort (concat (map (matchingIndices (arrays s hand)) (arrays s (scards rn)))) in
         if cardIds \<notin> set seen then (runs @ [rn], seen @ [cardIds], s) else st))"

definition suitRuns_st :: "addr \<Rightarrow> round \<Rightarrow> sstate \<Rightarrow> suit \<times> addr \<Rightarrow> sstate" where
  "suitRuns_st hand r st g =
     (case st of (runs, seen, s) \<Rightarrow>
        (let (runsInSuit, s1) = findRunsInSuit_st (snd g) r (Some hand) s
         in foldl (keepRun_st hand) (runs, seen, s1) runsInSuit))"

definition findRuns_st :: "addr \<Rightarrow> round \<Rightarrow> store \<Rightarrow> smeld list \<times> store" where
  "findRuns_st hand r s =
     (let (groups, s1) = suitGroups_st hand r s;
          st = foldl (suitRuns_st hand r) ([], [], s1) groups
      in (fst st, snd (snd st)))"

definition findMelds_st :: "addr \<Rightarrow> round \<Rightarrow> store \<Rightarrow> smeld list \<times> store" where
  "findMelds_st hand r s =
     (if length (arrays s hand) < 3 then ([], s)
      else
        (let (books, s1) = findBooks_st hand r s;
             (runs, s2) = findRuns_st hand r s1
         in (books @ runs, s2)))"

text \<open>
  A store extends another when it keeps every array the other has; the state of a loop is
  read through \<open>absState\<close>, which replaces the address of a meld's cards by the cards.
\<close>

definition ext :: "store \<Rightarrow> store \<Rightarrow> bool" where
  "ext s s' = (fresh s \<le> fresh s' \<and> (\<forall>a < fresh s. arrays s' a = arrays s a))"

definition storeOf :: "sstate \<Rightarrow> store" where
  "storeOf st = snd (snd st)"

definition absState :: "sstate \<Rightarrow> meld list \<times> key list" where
  "absState st = (map (deref (storeOf st)) (fst st), fst (snd st))"

definition wfState :: "sstate \<Rightarrow> bool" where
  "wfState st = (\<forall>m \<in> set (fst st). scards m < fresh (storeOf st))"

text \<open>
  The groups of a \<open>Map\<close> whose arrays are pushed to in place: the arrays were made after
  \<open>s0\<close>, under distinct addresses, and hold the groups \<open>pg\<close> of the functions above.
\<close>

definition groupsRel ::
  "store \<Rightarrow> ('k \<times> addr) list \<times> store \<Rightarrow> ('k \<times> card list) list \<Rightarrow> bool" where
  "groupsRel s0 gs pg =
     (ext s0 (snd gs) \<and> distinct (map snd (fst gs))
      \<and> (\<forall>g \<in> set (fst gs). fresh s0 \<le> snd g \<and> snd g < fresh (snd gs))
      \<and> map (\<lambda>g. (fst g, arrays (snd gs) (snd g))) (fst gs) = pg)"

section \<open>Example hands\<close>

definition mk :: "nat \<Rightarrow> suit \<Rightarrow> rank \<Rightarrow> card" where
  "mk i s k = \<lparr>oid = i, suit = s, rank = k\<rparr>"

text \<open>Two 5 of hearts (the deck holds every card twice), the 7 of hearts and a Joker.\<close>

definition handDup :: "card list" where
  "handDup = [mk 0 hearts R5, mk 1 hearts R5, mk 2 hearts R7, mk 3 clubs Joker]"

text \<open>The run 5-6-7-8 of hearts.\<close>

definition handRun4 :: "card list" where
  "handRun4 = [mk 0 hearts R5, mk 1 hearts R6, mk 2 hearts R7, mk 3 hearts R8]"

text \<open>The five cards of a turn in round 4: the run 5-6-7-8 of hearts and the King of clubs.\<close>

definition handRunK :: "card list" where
  "handRunK = [mk 0 hearts R5, mk 1 hearts R6, mk 2 hearts R7, mk 3 hearts R8, mk 4 clubs RK]"

text \<open>
  The hand of the shared Joker: 4-5-6-7 of hearts, a Joker, two 9 and a second Joker.
\<close>

definition handShare :: "card list" where
  "handShare = [mk 0 hearts R4, mk 1 hearts R5, mk 2 hearts R6, mk 3 hearts R7, mk 4 clubs Joker,
                mk 5 clubs R9, mk 6 diamonds R9, mk 7 clubs Joker]"

text \<open>The King of clubs and a Joker; three Jokers.\<close>

definition handKJ :: "card list" where
  "handKJ = [mk 0 clubs RK, mk 1 clubs Joker]"

definition handJokers :: "card list" where
  "handJokers = [mk 0 clubs Joker, mk 1 clubs Joker, mk 2 clubs Joker]"

text \<open>A store that holds the hand with the two 5 of hearts under address 0.\<close>

definition store0 :: store where
  "store0 = \<lparr>arrays = (\<lambda>_. [])(0 := handDup), fresh = 1\<rparr>"

section \<open>Notions of the specification\<close>

text \<open>
  An assignment gives every card of every meld an index of the hand whose card matches it
  (\<open>M handCard meldCard\<close>), and no index serves twice: \<open>asg\<close> holds one list of indices
  per meld, parallel to the meld's cards.
\<close>

definition assigned ::
  "(card \<Rightarrow> card \<Rightarrow> bool) \<Rightarrow> card list \<Rightarrow> meld list \<Rightarrow> nat list list \<Rightarrow> bool" where
  "assigned M hand ms asg =
     (list_all2 (\<lambda>m idxs. list_all2 (\<lambda>c i. i < length hand \<and> M (hand ! i) c) (cards m) idxs) ms asg
      \<and> distinct (concat asg))"

text \<open>
  The full-hand check as the specification words it: selecting over the melds covers every
  card, the hand is not empty and there is a meld.
\<close>

definition selectionCoversHand :: "card list \<Rightarrow> meld list \<Rightarrow> bool" where
  "selectionCoversHand hand ms =
     (usedCards (findBestMeldCombination hand ms) = length hand \<and> hand \<noteq> [] \<and> ms \<noteq> [])"

text \<open>No card object occurs twice in the card lists of the melds.\<close>

definition instancesDisjoint :: "meld list \<Rightarrow> bool" where
  "instancesDisjoint ms = distinct (concat (map cards ms))"

text \<open>
  The books as the specification lists them.  The rank groups are taken in the order in
  which their ranks first occur among the cards that are not wild; a group of \<open>r\<close> cards
  gives one book for every number \<open>w\<close> of wild cards, from 0 to all of them, with
  \<open>r + w \<ge> 3\<close>: the group, then the first \<open>w\<close> wild cards of the hand.  Last come the
  all-wild books, of every size from 3 to the number of wild cards.
\<close>

definition bookOf :: "card list \<Rightarrow> meld" where
  "bookOf cs = \<lparr>type = book, cards = cs\<rparr>"

definition firstRanks :: "rank list \<Rightarrow> rank list" where
  "firstRanks ks = rev (remdups (rev ks))"

definition wildsOf :: "card list \<Rightarrow> round \<Rightarrow> card list" where
  "wildsOf hand r = filter (\<lambda>c. isWildCard c r) hand"

definition regularsOf :: "card list \<Rightarrow> round \<Rightarrow> card list" where
  "regularsOf hand r = filter (\<lambda>c. \<not> isWildCard c r) hand"

definition rankGroup :: "card list \<Rightarrow> round \<Rightarrow> rank \<Rightarrow> card list" where
  "rankGroup hand r k = filter (\<lambda>c. rank c = k) (regularsOf hand r)"

definition groupBooksSpec :: "card list \<Rightarrow> round \<Rightarrow> rank \<Rightarrow> meld list" where
  "groupBooksSpec hand r k =
     map (\<lambda>w. bookOf (rankGroup hand r k @ take w (wildsOf hand r)))
       (filter (\<lambda>w. length (rankGroup hand r k) + w \<ge> 3) [0..<Suc (length (wildsOf hand r))])"

definition specBooks :: "card list \<Rightarrow> round \<Rightarrow> meld list" where
  "specBooks hand r =
     concat (map (groupBooksSpec hand r) (firstRanks (map rank (regularsOf hand r))))
     @ map (\<lambda>s. bookOf (take s (wildsOf hand r))) [3..<Suc (length (wildsOf hand r))]"

text \<open>
  For the proof that no book is dropped as a duplicate: the comparison of two cards by
  their key \<open>(suit, rank)\<close>, and the signature of a candidate book, which is its size
  and the set of the ranks of its cards that are not wild.
\<close>

definition keyMatch :: "card \<Rightarrow> card \<Rightarrow> bool" where
  "keyMatch h c = (cardKey h = cardKey c)"

definition sigOf :: "round \<Rightarrow> card list \<Rightarrow> nat \<times> rank set" where
  "sigOf r cs = (length cs, {k \<in> rank ` set cs. k \<noteq> r \<and> k \<noteq> Joker})"

text \<open>
  A list of cards embeds into the hand when the hand holds every key at least as often;
  \<open>keyOf\<close> is the key under which the enumeration records a candidate, and
  \<open>bookCandidates\<close> are the card lists that \<open>findBooks\<close> tries, in its order.
\<close>

definition embeds :: "card list \<Rightarrow> card list \<Rightarrow> bool" where
  "embeds hand cs = (\<forall>k. keyCount cs k \<le> keyCount hand k)"

definition keyOf :: "card list \<Rightarrow> card list \<Rightarrow> key" where
  "keyOf hand cs = sort (instanceIndices keyMatch hand cs [])"

definition groupCands :: "card list \<Rightarrow> card list \<Rightarrow> card list list" where
  "groupCands ws g =
     map (\<lambda>w. g @ take w ws) (filter (\<lambda>w. length g + w \<ge> 3) [0..<Suc (length ws)])"

definition bookCandidates :: "card list \<Rightarrow> round \<Rightarrow> card list list" where
  "bookCandidates hand r =
     concat (map (\<lambda>g. groupCands (wildsOf hand r) (snd g)) (rankGroups (regularsOf hand r)))
     @ map (\<lambda>s. take s (wildsOf hand r)) [3..<Suc (length (wildsOf hand r))]"

text \<open>
  What every run of the enumeration is: a meld of type \<open>run\<close> whose cards come from the
  pool it was built from, at least one of them not wild.
\<close>

definition properRun :: "card list \<Rightarrow> round \<Rightarrow> meld \<Rightarrow> bool" where
  "properRun pool r m =
     (type m = run \<and> set (cards m) \<subseteq> set pool \<and> (\<exists>c \<in> set (cards m). \<not> isWildCard c r))"

text \<open>The invariant of the loop of the selection, for the assignment \<open>asg\<close> built so far.\<close>

definition selInv :: "card list \<Rightarrow> meld list \<times> nat list \<Rightarrow> nat list list \<Rightarrow> bool" where
  "selInv hand st asg =
     (assigned sameSuitRank hand (fst st) asg \<and> distinct (snd st)
      \<and> set (snd st) \<inter> set (concat asg) = {}
      \<and> set (snd st) \<union> set (concat asg) = {0..<length hand})"

section \<open>Verified properties\<close>

subsection \<open>Draw advisor\<close>

text \<open>
  C9: for every hand, round, meld list and discard candidate that is a Joker or a card of
  the round's rank, the recommendation of the draw advisor is \<open>take\<close>.
\<close>

theorem C9_wild_candidate_take:
  assumes "rank discardCard = Joker \<or> rank discardCard = r"
  shows "DrawRecommendation discardCard hand r ms = Take"
  using assms by (auto simp: DrawRecommendation_def Let_def isWildCard_def)

theorem C9_wild_candidate_take_witness:
  "(rank (mk 9 diamonds R7) = Joker \<or> rank (mk 9 diamonds R7) = R7)
   \<and> DrawRecommendation (mk 9 diamonds R7) handRun4 R7 [] = Take"
  using C9_wild_candidate_take [of "mk 9 diamonds R7" R7 handRun4 "[]"]
  by (simp add: mk_def)

subsection \<open>Runs with duplicate cards\<close>

text \<open>
  C2 (failing input): with two 5 of hearts, the 7 of hearts and a Joker in round 3, the
  gap-filling strategy counts the second 5 as the card between 5 and 7, needs no wild card,
  and \<open>findMelds\<close> returns the run 5, 5, 7 of hearts: three non-wild cards whose ranks are
  neither distinct nor consecutive.
\<close>

theorem C2_duplicate_rank_run:
  "\<lparr>type = run, cards = [mk 0 hearts R5, mk 1 hearts R5, mk 2 hearts R7]\<rparr>
     \<in> set (findMelds handDup R3)"
  by code_simp

subsection \<open>Unmatchable melds in the go-out validation\<close>

text \<open>
  C3 (failing input): on the hand 5-6-7-8 of hearts, \<open>findMelds\<close> returns the runs 5-6-7,
  5-6-7-8 and 6-7-8.  The selection skips the two runs that no longer fit and covers the
  four cards; \<open>canAllCardsFormMelds\<close> stops at the second run, which it cannot match once
  the first is placed, and answers false for the whole hand.
\<close>

theorem C3_unmatched_meld_fails_validation:
  "map cards (findMelds handRun4 R3) =
     [[mk 0 hearts R5, mk 1 hearts R6, mk 2 hearts R7],
      [mk 0 hearts R5, mk 1 hearts R6, mk 2 hearts R7, mk 3 hearts R8],
      [mk 1 hearts R6, mk 2 hearts R7, mk 3 hearts R8]]
   \<and> usedCards (findBestMeldCombination handRun4 (findMelds handRun4 R3)) = 4
   \<and> canAllCardsFormMelds handRun4 (findMelds handRun4 R3) R3 = False"
  by code_simp

subsection \<open>Matching the cards of a meld\<close>

lemma matchCard_Some:
  assumes "matchCard M hand avail c = Some i"
  shows "i \<in> set avail \<and> (hand ! i = c \<or> M (hand ! i) c)"
  using assms unfolding matchCard_def
  by (auto split: option.splits simp: find_Some_iff)

lemma matchMeld_sound:
  "matchMeld M hand avail cs = Some idxs \<Longrightarrow>
     list_all2 (\<lambda>c i. i \<in> set avail \<and> (hand ! i = c \<or> M (hand ! i) c)) cs idxs \<and> distinct idxs"
proof (induction cs arbitrary: avail idxs)
  case Nil
  then show ?case by simp
next
  case (Cons c cs)
  from Cons.prems obtain i rest where
    i: "matchCard M hand avail c = Some i" and
    rest: "matchMeld M hand (removeAll i avail) cs = Some rest" and
    idxs: "idxs = i # rest"
    by (auto split: option.splits)
  from Cons.IH [OF rest] have
    ih: "list_all2 (\<lambda>c j. j \<in> set (removeAll i avail) \<and> (hand ! j = c \<or> M (hand ! j) c)) cs rest"
    and d: "distinct rest" by simp_all
  from ih have notin: "i \<notin> set rest"
    by (auto simp: list_all2_conv_all_nth in_set_conv_nth)
  from ih have "list_all2 (\<lambda>c j. j \<in> set avail \<and> (hand ! j = c \<or> M (hand ! j) c)) cs rest"
    by (rule list_all2_mono) auto
  with matchCard_Some [OF i] d notin idxs show ?case by simp
qed

lemma selectStep_inv:
  assumes "selInv hand st asg"
  shows "\<exists>asg'. selInv hand (selectStep hand st m) asg'"
proof (cases "matchMeld sameSuitRank hand (snd st) (cards m)")
  case None
  then show ?thesis using assms by (auto simp: selectStep_def)
next
  case (Some idxs)
  from matchMeld_sound [OF Some] have
    a: "list_all2 (\<lambda>c i. i \<in> set (snd st) \<and> (hand ! i = c \<or> sameSuitRank (hand ! i) c)) (cards m) idxs"
    and d: "distinct idxs" by simp_all
  from a have sub: "set idxs \<subseteq> set (snd st)"
    by (auto simp: list_all2_conv_all_nth in_set_conv_nth)
  from assms have bound: "set (snd st) \<subseteq> {0..<length hand}"
    unfolding selInv_def by blast
  from a bound have a': "list_all2 (\<lambda>c i. i < length hand \<and> sameSuitRank (hand ! i) c) (cards m) idxs"
    by (auto elim!: list_all2_mono simp: sameSuitRank_def)
  have st': "selectStep hand st m = (fst st @ [m], filter (\<lambda>i. i \<notin> set idxs) (snd st))"
    using Some by (simp add: selectStep_def)
  have "selInv hand (selectStep hand st m) (asg @ [idxs])"
    unfolding st' selInv_def assigned_def
    using assms a' d sub unfolding selInv_def assigned_def
    by (auto simp: list_all2_appendI)
  then show ?thesis ..
qed

lemma foldl_selectStep_inv:
  "selInv hand st asg \<Longrightarrow> \<exists>asg'. selInv hand (foldl (selectStep hand) st ms) asg'"
proof (induction ms arbitrary: st asg)
  case Nil
  then show ?case by auto
next
  case (Cons m ms)
  from selectStep_inv [OF Cons.prems] obtain asg1 where "selInv hand (selectStep hand st m) asg1" ..
  from Cons.IH [OF this] show ?case by simp
qed

lemma selInv_init: "selInv hand ([], [0..<length hand]) []"
  by (simp add: selInv_def assigned_def)

lemma selInv_count:
  assumes "selInv hand st asg"
  shows "length hand - length (snd st) = length (concat asg)"
proof -
  from assms have d1: "distinct (snd st)" and d2: "distinct (concat asg)"
    and dj: "set (snd st) \<inter> set (concat asg) = {}"
    and un: "set (snd st) \<union> set (concat asg) = {0..<length hand}"
    by (simp_all only: selInv_def assigned_def)
  have "card (set (snd st) \<union> set (concat asg)) = card (set (snd st)) + card (set (concat asg))"
    using dj by (intro card_Un_disjoint) simp_all
  moreover have "card (set (snd st) \<union> set (concat asg)) = length hand"
    by (simp only: un card_atLeastLessThan minus_nat.diff_0)
  moreover have "card (set (snd st)) = length (snd st)" using d1 by (rule distinct_card)
  moreover have "card (set (concat asg)) = length (concat asg)" using d2 by (rule distinct_card)
  ultimately show ?thesis by linarith
qed

lemma selectStep_subset: "set (fst (selectStep hand st m)) \<subseteq> set (fst st) \<union> {m}"
  by (auto simp: selectStep_def split: option.splits)

lemma foldl_selectStep_subset:
  "set (fst (foldl (selectStep hand) st ms)) \<subseteq> set (fst st) \<union> set ms"
proof (induction ms arbitrary: st)
  case Nil
  then show ?case by simp
next
  case (Cons m ms)
  have "set (fst (foldl (selectStep hand) (selectStep hand st m) ms))
          \<subseteq> set (fst (selectStep hand st m)) \<union> set ms"
    by (rule Cons.IH)
  with selectStep_subset [of hand st m] show ?case by auto
qed

lemma matchAllMelds_sound:
  assumes "matchAllMelds hand r st ms = Some st'"
      and "set (snd st) \<subseteq> {0..<length hand}"
  shows "\<exists>asg. list_all2 (\<lambda>m idxs. list_all2 (\<lambda>c i. i < length hand \<and> wildMatch r (hand ! i) c)
                              (cards m) idxs) ms asg
             \<and> distinct (concat asg)
             \<and> set (concat asg) \<subseteq> set (snd st)
             \<and> set (fst st') = set (fst st) \<union> set (concat asg)"
  using assms
proof (induction ms arbitrary: st)
  case Nil
  then show ?case by (auto intro: exI [of _ "[]"])
next
  case (Cons m ms)
  from Cons.prems(1) obtain idxs where
    mm: "matchMeld (wildMatch r) hand (snd st) (cards m) = Some idxs" and
    rest: "matchAllMelds hand r
             (List.union (fst st) idxs, filter (\<lambda>i. i \<notin> set idxs) (snd st)) ms = Some st'"
    by (auto split: option.splits)
  from matchMeld_sound [OF mm] have
    a: "list_all2 (\<lambda>c i. i \<in> set (snd st) \<and> (hand ! i = c \<or> wildMatch r (hand ! i) c)) (cards m) idxs"
    and d: "distinct idxs" by simp_all
  from a have sub: "set idxs \<subseteq> set (snd st)"
    by (auto simp: list_all2_conv_all_nth in_set_conv_nth)
  from a Cons.prems(2)
  have a': "list_all2 (\<lambda>c i. i < length hand \<and> wildMatch r (hand ! i) c) (cards m) idxs"
    by (auto elim!: list_all2_mono simp: wildMatch_def)
  have "set (snd (List.union (fst st) idxs, filter (\<lambda>i. i \<notin> set idxs) (snd st)))
          \<subseteq> {0..<length hand}"
    using Cons.prems(2) by auto
  from Cons.IH [OF rest this] obtain asg where
    ih1: "list_all2 (\<lambda>m idxs. list_all2 (\<lambda>c i. i < length hand \<and> wildMatch r (hand ! i) c)
                              (cards m) idxs) ms asg"
    and ih2: "distinct (concat asg)"
    and ih3: "set (concat asg) \<subseteq> set (filter (\<lambda>i. i \<notin> set idxs) (snd st))"
    and ih4: "set (fst st') = set (List.union (fst st) idxs) \<union> set (concat asg)"
    by auto
  have "list_all2 (\<lambda>m idxs. list_all2 (\<lambda>c i. i < length hand \<and> wildMatch r (hand ! i) c)
                              (cards m) idxs) (m # ms) (idxs # asg)"
    using a' ih1 by simp
  moreover have "distinct (concat (idxs # asg))"
    using d ih2 ih3 by auto
  moreover have "set (concat (idxs # asg)) \<subseteq> set (snd st)"
    using sub ih3 by auto
  moreover have "set (fst st') = set (fst st) \<union> set (concat (idxs # asg))"
    using ih4 by auto
  ultimately show ?case by blast
qed


subsection \<open>The selection\<close>

lemma selection_assigned:
  "\<exists>asg. assigned sameSuitRank hand (melds (findBestMeldCombination hand ms)) asg
         \<and> usedCards (findBestMeldCombination hand ms) = length (concat asg)
         \<and> length (concat asg) = card (set (concat asg))
         \<and> set (melds (findBestMeldCombination hand ms)) \<subseteq> set ms"
proof (cases "length ms = 0")
  case True
  then show ?thesis
    by (auto simp: findBestMeldCombination_def assigned_def intro: exI [of _ "[]"])
next
  case False
  obtain asg where inv: "selInv hand (foldl (selectStep hand) ([], [0..<length hand]) (sortedMelds ms)) asg"
    using foldl_selectStep_inv [OF selInv_init] by blast
  have sub: "set (fst (foldl (selectStep hand) ([], [0..<length hand]) (sortedMelds ms))) \<subseteq> set ms"
    using foldl_selectStep_subset [of hand "([], [0..<length hand])" "sortedMelds ms"]
    by (simp add: sortedMelds_def)
  from inv have d: "distinct (concat asg)" by (simp add: selInv_def assigned_def)
  show ?thesis
    using False inv selInv_count [OF inv] sub distinct_card [OF d]
    by (auto simp: findBestMeldCombination_def Let_def selInv_def intro!: exI [of _ asg])
qed



lemma helper_melds:
  "hmelds (findBestMeldCombinationForHelper hand r) =
     (if hand = [] \<or> findMelds hand r = [] then []
      else melds (findBestMeldCombination hand (findMelds hand r)))"
  by (simp add: findBestMeldCombinationForHelper_def Let_def)

text \<open>
  C5 (as stated, refuted): on the hand of the shared Joker in round 3 the selection keeps
  the run Joker-4-5-6-7 and the book 9-9-Joker of \<open>findMelds\<close>; both name the first Joker,
  whose place in the book is taken by the second Joker of equal suit and rank.
\<close>

theorem C5_shared_instance_counterexample:
  "melds (findBestMeldCombination handShare (findMelds handShare R3)) =
     [\<lparr>type = run, cards = [mk 4 clubs Joker, mk 0 hearts R4, mk 1 hearts R5, mk 2 hearts R6,
                            mk 3 hearts R7]\<rparr>,
      \<lparr>type = book, cards = [mk 5 clubs R9, mk 6 diamonds R9, mk 4 clubs Joker]\<rparr>]
   \<and> \<not> instancesDisjoint (melds (findBestMeldCombination handShare (findMelds handShare R3)))"
  by code_simp

text \<open>
  C5 (amended): for every hand and meld list the melds chosen by
  \<open>findBestMeldCombination\<close> are melds of the list and have an assignment to the hand: every
  card of every chosen meld gets an index of the hand that holds a card of the same suit
  and rank, no index is used twice, and \<open>usedCards\<close> is the number of distinct indices
  used.  The melds of \<open>findBestMeldCombinationForHelper\<close> have such an assignment as well.
\<close>

theorem C5_selection_assigns_distinct_indices:
  "(\<exists>asg. assigned sameSuitRank hand (melds (findBestMeldCombination hand ms)) asg
          \<and> usedCards (findBestMeldCombination hand ms) = card (set (concat asg))
          \<and> set (melds (findBestMeldCombination hand ms)) \<subseteq> set ms)
   \<and> (\<exists>asg. assigned sameSuitRank hand (hmelds (findBestMeldCombinationForHelper hand r)) asg)"
proof
  from selection_assigned [of hand ms]
  show "\<exists>asg. assigned sameSuitRank hand (melds (findBestMeldCombination hand ms)) asg
          \<and> usedCards (findBestMeldCombination hand ms) = card (set (concat asg))
          \<and> set (melds (findBestMeldCombination hand ms)) \<subseteq> set ms"
    by auto
  show "\<exists>asg. assigned sameSuitRank hand (hmelds (findBestMeldCombinationForHelper hand r)) asg"
  proof (cases "hand = [] \<or> findMelds hand r = []")
    case True
    then have "hmelds (findBestMeldCombinationForHelper hand r) = []"
      by (simp add: helper_melds)
    then show ?thesis by (auto simp: assigned_def intro: exI [of _ "[]"])
  next
    case False
    then have "hmelds (findBestMeldCombinationForHelper hand r)
                 = melds (findBestMeldCombination hand (findMelds hand r))"
      by (simp add: helper_melds)
    with selection_assigned [of hand "findMelds hand r"] show ?thesis by auto
  qed
qed

theorem C5_selection_assigns_distinct_indices_witness:
  "usedCards (findBestMeldCombination handShare (findMelds handShare R3)) = 8
   \<and> (\<exists>asg. assigned sameSuitRank handShare
               (melds (findBestMeldCombination handShare (findMelds handShare R3))) asg
             \<and> card (set (concat asg)) = 8)"
proof -
  have u: "usedCards (findBestMeldCombination handShare (findMelds handShare R3)) = 8"
    by code_simp
  from C5_selection_assigns_distinct_indices [of handShare "findMelds handShare R3" R3] u
  show ?thesis by auto
qed

subsection \<open>The full-hand check\<close>

text \<open>
  C1 (failing input): round 4, the five cards 5-6-7-8 of hearts and the King of clubs.
  Discarding the King leaves the run 5-6-7-8 of hearts, for which \<open>findMelds\<close> returns
  the runs 5-6-7, 5-6-7-8 and 6-7-8.  Selecting over these melds covers the four cards, the
  hand is not empty and there is a meld, and the go-out check of the turn screen accepts
  the hand.  \<open>canAllCardsFormMelds\<close> answers false: it places 5-6-7, cannot match
  5-6-7-8 any more and returns at once.  So the first strategy of the discard advisor finds
  no discard that goes out of these five cards.
\<close>

theorem C1_covered_hand_rejected:
  "withoutIndex 4 handRunK = handRun4
   \<and> map cards (findMelds handRun4 R4) =
       [[mk 0 hearts R5, mk 1 hearts R6, mk 2 hearts R7],
        [mk 0 hearts R5, mk 1 hearts R6, mk 2 hearts R7, mk 3 hearts R8],
        [mk 1 hearts R6, mk 2 hearts R7, mk 3 hearts R8]]
   \<and> selectionCoversHand handRun4 (findMelds handRun4 R4)
   \<and> success (canGoOutWithHand handRun4 (findMelds handRun4 R4) R4)
   \<and> canAllCardsFormMelds handRun4 (findMelds handRun4 R4) R4 = False
   \<and> goOutIndex handRunK R4 = None"
  by code_simp

text \<open>
  What an answer true of \<open>canAllCardsFormMelds\<close> on a hand that is not empty does
  establish: there is a meld, and every card of every meld of the list has its own index of
  the hand, holding the same object, a card of the same suit and rank, or a wild card for a
  wild card; no index is used twice and every index of the hand is used.
\<close>

lemma canAllCardsFormMelds_sound:
  assumes h: "hand \<noteq> []" and c: "canAllCardsFormMelds hand ms r"
  shows "ms \<noteq> [] \<and> (\<exists>asg. assigned (wildMatch r) hand ms asg
                         \<and> set (concat asg) = {0..<length hand})"
proof
  show "ms \<noteq> []" using h c by (auto simp: canAllCardsFormMelds_def)
  from h c obtain st' where
    m: "matchAllMelds hand r ([], [0..<length hand]) ms = Some st'" and
    len: "length (remdups (fst st')) = length hand"
    by (auto simp: canAllCardsFormMelds_def split: if_splits option.splits)
  from matchAllMelds_sound [OF m] obtain asg where
    a1: "list_all2 (\<lambda>m idxs. list_all2 (\<lambda>c i. i < length hand \<and> wildMatch r (hand ! i) c)
                            (cards m) idxs) ms asg"
    and a2: "distinct (concat asg)"
    and a3: "set (concat asg) \<subseteq> {0..<length hand}"
    and a4: "set (fst st') = set (concat asg)"
    by auto
  have "card (set (concat asg)) = length hand"
    using len a4 by (metis length_remdups_card_conv)
  then have "set (concat asg) = {0..<length hand}"
    using a3 by (intro card_subset_eq) simp_all
  with a1 a2 show "\<exists>asg. assigned (wildMatch r) hand ms asg \<and> set (concat asg) = {0..<length hand}"
    unfolding assigned_def by blast
qed

subsection \<open>Loops as folds\<close>

lemma foldl_invariant:
  assumes "I s" and "\<And>s x. x \<in> set xs \<Longrightarrow> I s \<Longrightarrow> I (f s x)"
  shows "I (foldl f s xs)"
  using assms by (induction xs arbitrary: s) auto

lemma foldl_Ball_fst:
  assumes "\<forall>m \<in> set (fst s). Q m"
    and "\<And>s x. x \<in> set xs \<Longrightarrow> \<forall>m \<in> set (fst s). Q m \<Longrightarrow> \<forall>m \<in> set (fst (f s x)). Q m"
  shows "\<forall>m \<in> set (fst (foldl f s xs)). Q m"
  using assms by (rule foldl_invariant [where I = "\<lambda>s. \<forall>m \<in> set (fst s). Q m"])

lemma foldl_Ball:
  assumes "\<forall>m \<in> set s. Q m"
    and "\<And>s x. x \<in> set xs \<Longrightarrow> \<forall>m \<in> set s. Q m \<Longrightarrow> \<forall>m \<in> set (f s x). Q m"
  shows "\<forall>m \<in> set (foldl f s xs). Q m"
  using assms by (rule foldl_invariant [where I = "\<lambda>s. \<forall>m \<in> set s. Q m"])

subsection \<open>Runs and wild cards\<close>

lemma getRunKey_Nil: "getRunKey cardSource r [] = []"
  by (simp add: getRunKey_def)

lemma pushRun_proper:
  assumes "(\<forall>m \<in> set (fst st). properRun pool r m)
           \<and> (runCards \<noteq> [] \<longrightarrow> properRun pool r \<lparr>type = run, cards = runCards\<rparr>)"
  shows "\<forall>m \<in> set (fst (pushRun cardSource r runCards st)). properRun pool r m"
proof (cases "runCards = []")
  case True
  with assms show ?thesis by (simp add: pushRun_def getRunKey_Nil)
next
  case False
  with assms show ?thesis by (auto simp: pushRun_def Let_def)
qed

lemma loopPairs_bounds: "(i, j) \<in> set (loopPairs d n) \<Longrightarrow> i + d \<le> j \<and> j < n"
  by (auto simp: loopPairs_def)

lemma consecutiveStep_proper:
  assumes "\<forall>m \<in> set (fst st). properRun pool r m"
    and "set rp \<subseteq> set pool" and "\<forall>c \<in> set rp. \<not> isWildCard c r"
  shows "\<forall>m \<in> set (fst (consecutiveStep cardSource r rp st ij)). properRun pool r m"
proof -
  let ?sq = "take (snd ij + 1 - fst ij) (drop (fst ij) rp)"
  have sub: "set ?sq \<subseteq> set rp"
    by (meson set_take_subset set_drop_subset subset_trans)
  have new: "?sq \<noteq> [] \<longrightarrow> properRun pool r \<lparr>type = run, cards = ?sq\<rparr>"
  proof
    assume "?sq \<noteq> []"
    then obtain c where "c \<in> set ?sq" by (cases ?sq) auto
    with sub assms(2,3) show "properRun pool r \<lparr>type = run, cards = ?sq\<rparr>"
      unfolding properRun_def by auto
  qed
  show ?thesis
  proof (cases "isConsecutive (map rank ?sq)")
    case True
    then have "consecutiveStep cardSource r rp st ij = pushRun cardSource r ?sq st"
      by (simp add: consecutiveStep_def Let_def)
    with pushRun_proper [of st pool r ?sq cardSource] assms(1) new show ?thesis by simp
  next
    case False
    then have "consecutiveStep cardSource r rp st ij = st"
      by (simp add: consecutiveStep_def Let_def)
    with assms(1) show ?thesis by simp
  qed
qed

lemma gapStep_proper:
  assumes "\<forall>m \<in> set (fst st). properRun pool r m"
    and "set rp \<subseteq> set pool" and "\<forall>c \<in> set rp. \<not> isWildCard c r"
    and "set ws \<subseteq> set pool"
    and "fst ij < snd ij" and "snd ij < length rp"
  shows "\<forall>m \<in> set (fst (gapStep cardSource r rp ws st ij)). properRun pool r m"
proof -
  define si where "si = rankIndex (rank (rp ! fst ij))"
  define ei where "ei = rankIndex (rank (rp ! snd ij))"
  define wn where "wn = ei - si + 1 - (int (snd ij) - int (fst ij) + 1)"
  define fill where "fill = (if wn > 0 then take (nat wn) ws else [])"
  define sq where "sq = [rp ! fst ij] @ map (\<lambda>k. rp ! k) [fst ij + 1..<snd ij] @ fill @ [rp ! snd ij]"
  have i: "rp ! fst ij \<in> set rp" and j: "rp ! snd ij \<in> set rp"
    using assms(5,6) by simp_all
  have mid: "set (map (\<lambda>k. rp ! k) [fst ij + 1..<snd ij]) \<subseteq> set rp"
    using assms(6) by auto
  have "set (take k ws) \<subseteq> set pool" for k
    using assms(4) by (meson set_take_subset subset_trans)
  then have fill: "set fill \<subseteq> set pool" unfolding fill_def by (cases "wn > 0") simp_all
  have new: "properRun pool r \<lparr>type = run, cards = sq\<rparr>"
    using i j mid fill assms(2,3) unfolding properRun_def sq_def by auto
  have p: "\<forall>m \<in> set (fst (pushRun cardSource r sq st)). properRun pool r m"
    by (rule pushRun_proper) (use assms(1) new in blast)
  have eq: "gapStep cardSource r rp ws st ij =
     (if si = - 1 \<or> ei = - 1 then st
      else if si \<ge> ei then st
      else if wn \<ge> 0 \<and> wn \<le> int (length ws) \<and> ei - si + 1 \<ge> 3
           then (if length sq \<ge> 3 then pushRun cardSource r sq st else st)
           else st)"
    by (simp only: gapStep_def Let_def sq_def fill_def wn_def si_def ei_def)
  show ?thesis
    unfolding eq using assms(1) p by (simp only: split: if_split) blast
qed

lemma pairStep_proper:
  assumes "\<forall>m \<in> set (fst st). properRun pool r m"
    and "set rp \<subseteq> set pool" and "\<forall>c \<in> set rp. \<not> isWildCard c r"
    and "set ws \<subseteq> set pool"
    and "i + 1 < length rp"
  shows "\<forall>m \<in> set (fst (pairStep cardSource r rp ws st i)). properRun pool r m"
proof -
  have i: "rp ! i \<in> set rp" and j: "rp ! (i + 1) \<in> set rp"
    using assms(5) by simp_all
  have tk: "set (take k ws) \<subseteq> set pool" for k
    using assms(4) by (meson set_take_subset subset_trans)
  have a: "properRun pool r \<lparr>type = run, cards = [rp ! i, rp ! (i + 1)] @ take 1 ws\<rparr>"
    using i j tk [of 1] assms(2,3) unfolding properRun_def by auto
  have b: "properRun pool r \<lparr>type = run, cards = take 1 ws @ [rp ! i, rp ! (i + 1)]\<rparr>"
    using i j tk [of 1] assms(2,3) unfolding properRun_def by auto
  define st1 where "st1 = (if rankIndex (rank (rp ! (i + 1))) < int (length RANK_ORDER) - 1
                       then pushRun cardSource r ([rp ! i, rp ! (i + 1)] @ take 1 ws) st
                       else st)"
  have p0: "\<forall>m \<in> set (fst (pushRun cardSource r ([rp ! i, rp ! (i + 1)] @ take 1 ws) st)).
              properRun pool r m"
    by (rule pushRun_proper) (use assms(1) a in blast)
  have p1: "\<forall>m \<in> set (fst st1). properRun pool r m"
    unfolding st1_def using p0 assms(1) by (simp only: split: if_split) blast
  have p2: "\<forall>m \<in> set (fst (pushRun cardSource r (take 1 ws @ [rp ! i, rp ! (i + 1)]) st1)).
              properRun pool r m"
    by (rule pushRun_proper) (use p1 b in blast)
  have eq: "pairStep cardSource r rp ws st i =
          (if rankIndex (rank (rp ! i)) = - 1 \<or> rankIndex (rank (rp ! (i + 1))) = - 1 then st
           else if rankIndex (rank (rp ! (i + 1))) - rankIndex (rank (rp ! i)) = 1 \<and> length ws > 0
           then (if rankIndex (rank (rp ! i)) > 0
                 then pushRun cardSource r (take 1 ws @ [rp ! i, rp ! (i + 1)]) st1
                 else st1)
           else st)"
    by (simp only: pairStep_def Let_def st1_def)
  show ?thesis
    unfolding eq using assms(1) p1 p2 by (simp only: split: if_split) blast
qed

lemma extendStep_proper:
  assumes "\<forall>m \<in> set (fst st). properRun pool r m"
    and "properRun pool r rn" and "set ws \<subseteq> set pool"
  shows "\<forall>m \<in> set (fst (extendStep cardSource r ws st rn)). properRun pool r m"
proof -
  define uw where "uw = filter (\<lambda>wc. wc \<notin> set (filter (\<lambda>c. isWildCard c r) (cards rn))) ws"
  define rr where "rr = map rank (filter (\<lambda>c. \<not> isWildCard c r) (cards rn))"
  define st1 where "st1 = (if rankIndex (hd rr) > 0 \<and> length uw > 0
                                then pushRun cardSource r (hd uw # cards rn) st
                                else st)"
  have hd: "hd uw \<in> set pool" if "length uw > 0"
  proof -
    from that have "hd uw \<in> set uw" by (intro hd_in_set) auto
    with assms(3) show ?thesis by (auto simp: uw_def)
  qed
  have a: "properRun pool r \<lparr>type = run, cards = hd uw # cards rn\<rparr>" if "length uw > 0"
    using hd [OF that] assms(2) unfolding properRun_def by auto
  have b: "properRun pool r \<lparr>type = run, cards = cards rn @ [hd uw]\<rparr>" if "length uw > 0"
    using hd [OF that] assms(2) unfolding properRun_def by auto
  have p0: "\<forall>m \<in> set (fst (pushRun cardSource r (hd uw # cards rn) st)). properRun pool r m"
    if "length uw > 0"
    by (rule pushRun_proper) (use assms(1) a [OF that] in blast)
  have p1: "\<forall>m \<in> set (fst st1). properRun pool r m"
    unfolding st1_def using p0 assms(1) by (simp only: split: if_split) blast
  have p2: "\<forall>m \<in> set (fst (pushRun cardSource r (cards rn @ [hd uw]) st1)). properRun pool r m"
    if "length uw > 0"
    by (rule pushRun_proper) (use p1 b [OF that] in blast)
  have eq: "extendStep cardSource r ws st rn =
     (if length rr = 0 then st
      else if length uw \<le> 0 then st
      else if rankIndex (hd rr) = - 1 \<or> rankIndex (last rr) = - 1 then st
      else if rankIndex (last rr) < int (length RANK_ORDER) - 1 \<and> length uw > 0
           then pushRun cardSource r (cards rn @ [hd uw]) st1
           else st1)"
    by (simp only: extendStep_def Let_def st1_def uw_def rr_def)
  show ?thesis
    unfolding eq using assms(1) p1 p2 by (simp only: split: if_split) blast
qed

lemma findRunsInSuit_proper:
  "\<forall>m \<in> set (findRunsInSuit pool r oc). properRun pool r m"
proof -
  define cs where "cs = (case oc of Some o' \<Rightarrow> o' | None \<Rightarrow> pool)"
  define rp where "rp = sort_key (\<lambda>c. rankIndex (rank c)) (filter (\<lambda>c. \<not> isWildCard c r) pool)"
  define ws where "ws = filter (\<lambda>c. isWildCard c r) pool"
  define st0 where "st0 = foldl (consecutiveStep cs r rp) ([], []) (loopPairs 2 (length rp))"
  define st1 where "st1 = foldl (gapStep cs r rp ws) st0 (loopPairs 1 (length rp))"
  define st2 where "st2 = foldl (pairStep cs r rp ws) st1 [0..<length rp - 1]"
  define ext where "ext = foldl (extendStep cs r ws) ([], snd st2) (fst st2)"
  have rp1: "set rp \<subseteq> set pool" and rp2: "\<forall>c \<in> set rp. \<not> isWildCard c r"
    and ws: "set ws \<subseteq> set pool"
    by (auto simp: rp_def ws_def)
  have p0: "\<forall>m \<in> set (fst st0). properRun pool r m"
    unfolding st0_def
  proof (rule foldl_Ball_fst)
    show "\<forall>m \<in> set (fst ([], [])). properRun pool r m" by simp
    fix s :: "meld list \<times> key list" and x :: "nat \<times> nat"
    assume "\<forall>m \<in> set (fst s). properRun pool r m"
    from consecutiveStep_proper [OF this rp1 rp2]
    show "\<forall>m \<in> set (fst (consecutiveStep cs r rp s x)). properRun pool r m" .
  qed
  have p1: "\<forall>m \<in> set (fst st1). properRun pool r m"
    unfolding st1_def
  proof (rule foldl_Ball_fst [OF p0])
    fix s :: "meld list \<times> key list" and x :: "nat \<times> nat"
    assume x: "x \<in> set (loopPairs 1 (length rp))" and s: "\<forall>m \<in> set (fst s). properRun pool r m"
    from x loopPairs_bounds [of "fst x" "snd x" 1 "length rp"]
    have "fst x < snd x" "snd x < length rp" by auto
    from gapStep_proper [OF s rp1 rp2 ws this]
    show "\<forall>m \<in> set (fst (gapStep cs r rp ws s x)). properRun pool r m" .
  qed
  have p2: "\<forall>m \<in> set (fst st2). properRun pool r m"
    unfolding st2_def
  proof (rule foldl_Ball_fst [OF p1])
    fix s :: "meld list \<times> key list" and x :: nat
    assume x: "x \<in> set [0..<length rp - 1]" and s: "\<forall>m \<in> set (fst s). properRun pool r m"
    from x have "x + 1 < length rp" by auto
    from pairStep_proper [OF s rp1 rp2 ws this]
    show "\<forall>m \<in> set (fst (pairStep cs r rp ws s x)). properRun pool r m" .
  qed
  have p3: "\<forall>m \<in> set (fst ext). properRun pool r m"
    unfolding ext_def
  proof (rule foldl_Ball_fst)
    show "\<forall>m \<in> set (fst ([], snd st2)). properRun pool r m" by simp
    fix s :: "meld list \<times> key list" and x :: meld
    assume x: "x \<in> set (fst st2)" and s: "\<forall>m \<in> set (fst s). properRun pool r m"
    from p2 x have "properRun pool r x" by blast
    from extendStep_proper [OF s this ws]
    show "\<forall>m \<in> set (fst (extendStep cs r ws s x)). properRun pool r m" .
  qed
  have "findRunsInSuit pool r oc =
          (if length ws > 0 \<and> length rp > 0 then fst st2 @ fst ext else fst st0)"
    by (simp only: findRunsInSuit_def Let_def cs_def rp_def ws_def st0_def st1_def st2_def ext_def)
  moreover have "\<forall>m \<in> set (fst st2 @ fst ext). properRun pool r m"
    using p2 p3 by auto
  ultimately show ?thesis using p0 by (simp only: split: if_split) blast
qed

lemma groupPush_subset:
  assumes "\<forall>g \<in> set G. set (snd g) \<subseteq> A" and "c \<in> A"
  shows "\<forall>g \<in> set (groupPush k c G). set (snd g) \<subseteq> A"
  using assms
proof (induction k c G rule: groupPush.induct)
  case (1 k c)
  then show ?case by simp
next
  case (2 k c k' v g)
  show ?case
  proof (cases "k' = k")
    case True
    with "2.prems" show ?thesis by auto
  next
    case False
    from "2.prems" have "\<forall>g \<in> set g. set (snd g) \<subseteq> A" by simp
    from "2.IH" [OF False this "2.prems"(2)] "2.prems" False show ?thesis by simp
  qed
qed

lemma suitGroups_subset: "\<forall>g \<in> set (suitGroups hand r). set (snd g) \<subseteq> set hand"
  unfolding suitGroups_def
proof (rule foldl_Ball)
  show "\<forall>g \<in> set []. set (snd g) \<subseteq> set hand" by simp
  fix s :: "(suit \<times> card list) list" and x
  assume x: "x \<in> set hand" and s: "\<forall>g \<in> set s. set (snd g) \<subseteq> set hand"
  have "\<forall>g \<in> set (foldl (\<lambda>g' su. groupPush su x g') s sus). set (snd g) \<subseteq> set hand" for sus
    by (rule foldl_Ball [OF s]) (rule groupPush_subset [OF _ x])
  with groupPush_subset [OF s x]
  show "\<forall>g \<in> set (suitGroupStep r s x). set (snd g) \<subseteq> set hand"
    by (simp add: suitGroupStep_def)
qed

lemma properRun_mono: "properRun pool r m \<Longrightarrow> set pool \<subseteq> set hand \<Longrightarrow> properRun hand r m"
  by (auto simp: properRun_def)

lemma findRuns_proper: "\<forall>m \<in> set (findRuns hand r). properRun hand r m"
  unfolding findRuns_def
proof (rule foldl_Ball_fst)
  show "\<forall>m \<in> set (fst ([], [])). properRun hand r m" by simp
  fix s :: "meld list \<times> key list" and g
  assume g: "g \<in> set (suitGroups hand r)" and s: "\<forall>m \<in> set (fst s). properRun hand r m"
  from g suitGroups_subset have sub: "set (snd g) \<subseteq> set hand" by blast
  show "\<forall>m \<in> set (fst (suitRuns hand r s g)). properRun hand r m"
    unfolding suitRuns_def
  proof (rule foldl_Ball_fst [OF s])
    fix s' :: "meld list \<times> key list" and rn
    assume rn: "rn \<in> set (findRunsInSuit (snd g) r (Some hand))"
      and s': "\<forall>m \<in> set (fst s'). properRun hand r m"
    from rn findRunsInSuit_proper have "properRun (snd g) r rn" by blast
    then have "properRun hand r rn" using sub by (rule properRun_mono)
    with s' show "\<forall>m \<in> set (fst (keepRun hand s' rn)). properRun hand r m"
      by (auto simp: keepRun_def Let_def)
  qed
qed

lemma emitBook_type:
  assumes "\<forall>m \<in> set (fst st). type m = book"
  shows "\<forall>m \<in> set (fst (emitBook M hand cs st)). type m = book"
  using assms by (auto simp: emitBook_def Let_def)

lemma groupBooks_type:
  assumes "\<forall>m \<in> set (fst st). type m = book"
  shows "\<forall>m \<in> set (fst (groupBooks hand ws st g)). type m = book"
proof (cases "length (snd g) + length ws \<ge> 3")
  case False
  with assms show ?thesis by (simp add: groupBooks_def)
next
  case True
  have "\<forall>m \<in> set (fst (foldl (groupBook hand ws (snd g)) st [0..<Suc (length ws)])). type m = book"
  proof (rule foldl_Ball_fst [OF assms])
    fix s :: "meld list \<times> key list" and x
    assume "\<forall>m \<in> set (fst s). type m = book"
    then show "\<forall>m \<in> set (fst (groupBook hand ws (snd g) s x)). type m = book"
      using emitBook_type [of s bookMatch hand] by (simp add: groupBook_def)
  qed
  with True show ?thesis by (simp add: groupBooks_def)
qed

lemma findBooks_type: "\<forall>m \<in> set (findBooks hand r). type m = book"
proof -
  define ws where "ws = filter (\<lambda>c. isWildCard c r) hand"
  define st where
    "st = foldl (groupBooks hand ws) ([], []) (rankGroups (filter (\<lambda>c. \<not> isWildCard c r) hand))"
  have a: "\<forall>m \<in> set (fst st). type m = book"
    unfolding st_def
  proof (rule foldl_Ball_fst)
    show "\<forall>m \<in> set (fst ([], [])). type m = book" by simp
    fix s :: "meld list \<times> key list" and g
    assume "\<forall>m \<in> set (fst s). type m = book"
    then show "\<forall>m \<in> set (fst (groupBooks hand ws s g)). type m = book"
      by (rule groupBooks_type)
  qed
  have b: "\<forall>m \<in> set (fst (foldl (wildBook hand r ws) st xs)). type m = book" for xs
  proof (rule foldl_Ball_fst [OF a])
    fix s :: "meld list \<times> key list" and x
    assume "\<forall>m \<in> set (fst s). type m = book"
    then show "\<forall>m \<in> set (fst (wildBook hand r ws s x)). type m = book"
      unfolding wildBook_def by (rule emitBook_type)
  qed
  have "findBooks hand r =
          fst (if length ws \<ge> 3 then foldl (wildBook hand r ws) st [3..<Suc (length ws)] else st)"
    by (simp only: findBooks_def Let_def ws_def st_def)
  with a b show ?thesis by (simp only: split: if_split) blast
qed

text \<open>
  C6 (as stated, refuted): three Jokers yield the all-wild book and no run.
\<close>

theorem C6_all_wild_hand_counterexample:
  "findMelds handJokers R3 =
     [\<lparr>type = book, cards = [mk 0 clubs Joker, mk 1 clubs Joker, mk 2 clubs Joker]\<rparr>]"
  by code_simp

text \<open>
  C6 (amended): for every hand and round, \<open>findMelds\<close> emits no all-wild run: every meld
  of type \<open>run\<close> it returns holds at least one card that is not wild.  In particular a
  hand of wild cards only, however many, yields no meld of type \<open>run\<close>: its melds are
  books.
\<close>

theorem C6_runs_hold_a_regular_card:
  "(\<forall>m \<in> set (findMelds hand r). type m = run \<longrightarrow> (\<exists>c \<in> set (cards m). \<not> isWildCard c r))
   \<and> ((\<forall>c \<in> set hand. isWildCard c r) \<longrightarrow> (\<forall>m \<in> set (findMelds hand r). type m = book))"
proof -
  have 1: "\<exists>c \<in> set (cards m). c \<in> set hand \<and> \<not> isWildCard c r"
    if "m \<in> set (findMelds hand r)" "type m = run" for m
  proof -
    from that findBooks_type [of hand r] have "m \<in> set (findRuns hand r)"
      by (auto simp: findMelds_def split: if_splits)
    with findRuns_proper [of hand r] have "properRun hand r m" by blast
    then show ?thesis unfolding properRun_def by blast
  qed
  have 2: "type m = book" if "\<forall>c \<in> set hand. isWildCard c r" "m \<in> set (findMelds hand r)" for m
    using 1 [OF that(2)] that(1) by (cases "type m") auto
  from 1 2 show ?thesis by blast
qed

theorem C6_runs_hold_a_regular_card_witness:
  "list_all (\<lambda>c. isWildCard c R3) handJokers
   \<and> findMelds handJokers R3 \<noteq> []
   \<and> list_all (\<lambda>m. type m = book) (findMelds handJokers R3)"
proof -
  have w: "\<forall>c \<in> set handJokers. isWildCard c R3"
    by (simp add: handJokers_def mk_def isWildCard_def)
  have ne: "findMelds handJokers R3 \<noteq> []" by code_simp
  from C6_runs_hold_a_regular_card [of handJokers R3] w ne show ?thesis
    unfolding list_all_iff by blast
qed

subsection \<open>The discard advisor\<close>

lemma foldl_pickHighest:
  "foldl (pickHighest r) x xs \<in> set (x # xs)
   \<and> (\<forall>d \<in> set (x # xs). getCardPoints r d \<le> getCardPoints r (foldl (pickHighest r) x xs))"
proof (induction xs arbitrary: x)
  case Nil
  then show ?case by simp
next
  case (Cons y ys)
  from Cons.IH [of "pickHighest r x y"] show ?case
    by (auto simp: pickHighest_def split: if_splits)
qed

lemma foldl_pickLowest:
  "foldl (pickLowest r) x xs \<in> set (x # xs)
   \<and> (\<forall>d \<in> set (x # xs). getCardPoints r (foldl (pickLowest r) x xs) \<le> getCardPoints r d)"
proof (induction xs arbitrary: x)
  case Nil
  then show ?case by simp
next
  case (Cons y ys)
  from Cons.IH [of "pickLowest r x y"] show ?case
    by (auto simp: pickLowest_def split: if_splits)
qed

lemma reduce_pickHighest:
  assumes "xs \<noteq> []"
  shows "\<exists>c. reduce (pickHighest r) xs = Some c \<and> c \<in> set xs
             \<and> (\<forall>d \<in> set xs. getCardPoints r d \<le> getCardPoints r c)"
proof -
  from assms obtain y ys where xs: "xs = y # ys" by (cases xs) auto
  show ?thesis unfolding xs reduce_def using foldl_pickHighest [of r y ys] by simp
qed

lemma reduce_pickLowest:
  assumes "xs \<noteq> []"
  shows "\<exists>c. reduce (pickLowest r) xs = Some c \<and> c \<in> set xs
             \<and> (\<forall>d \<in> set xs. getCardPoints r c \<le> getCardPoints r d)"
proof -
  from assms obtain y ys where xs: "xs = y # ys" by (cases xs) auto
  show ?thesis unfolding xs reduce_def using foldl_pickLowest [of r y ys] by simp
qed

lemma noMeldDiscard_final:
  assumes "hand \<noteq> []"
  shows "\<exists>c. noMeldDiscard hand r True = Some c \<and> c \<in> set hand
             \<and> (\<forall>d \<in> set hand. getCardPoints r d \<le> getCardPoints r c)"
  using reduce_pickHighest [OF assms, of r] by (simp add: noMeldDiscard_def)

lemma noMeldDiscard_regular_nonwild:
  assumes "\<exists>c \<in> set hand. \<not> isWildCard c r"
  shows "\<exists>c. noMeldDiscard hand r False = Some c \<and> c \<in> set hand \<and> \<not> isWildCard c r
             \<and> (\<forall>d \<in> set hand. \<not> isWildCard d r \<longrightarrow> getCardPoints r d \<le> getCardPoints r c)"
proof -
  let ?nw = "filter (\<lambda>c. \<not> isWildCard c r) hand"
  from assms have ne: "?nw \<noteq> []" by (auto simp: filter_empty_conv)
  from reduce_pickHighest [OF ne, of r] ne show ?thesis
    by (auto simp: noMeldDiscard_def Let_def)
qed

lemma noMeldDiscard_regular_allwild:
  assumes "hand \<noteq> []" and "\<forall>c \<in> set hand. isWildCard c r"
  shows "\<exists>c. noMeldDiscard hand r False = Some c \<and> c \<in> set hand
             \<and> (\<forall>d \<in> set hand. getCardPoints r c \<le> getCardPoints r d)"
proof -
  from assms(2) have "filter (\<lambda>c. \<not> isWildCard c r) hand = []" by (auto simp: filter_empty_conv)
  with reduce_pickLowest [OF assms(1), of r] show ?thesis
    by (simp add: noMeldDiscard_def Let_def)
qed

lemma noMeldDiscard_member:
  assumes "hand \<noteq> []"
  shows "\<exists>c. noMeldDiscard hand r fin = Some c \<and> c \<in> set hand"
proof (cases fin)
  case True
  with noMeldDiscard_final [OF assms, of r] show ?thesis by auto
next
  case False
  show ?thesis
  proof (cases "\<exists>c \<in> set hand. \<not> isWildCard c r")
    case True
    from noMeldDiscard_regular_nonwild [OF True] False show ?thesis by auto
  next
    case nw: False
    then have "\<forall>c \<in> set hand. isWildCard c r" by blast
    from noMeldDiscard_regular_allwild [OF assms this] False show ?thesis by auto
  qed
qed

lemma suggestDiscard_no_melds:
  assumes "hand \<noteq> []" and "goOutIndex hand r = None"
  shows "suggestDiscard hand r [] fin = noMeldDiscard hand r fin"
  using assms by (simp add: suggestDiscard_def)

text \<open>
  C7: for every hand that is not empty, on which the advisor finds no discard that goes
  out (\<open>goOutIndex\<close> finds no index), and with an empty meld list: on the final turn
  \<open>suggestDiscard\<close> returns a card of the hand of the highest point value, wild cards
  included; on a regular turn it returns a card of the highest point value among those that
  are not wild, and when every card is wild a wild card of the lowest point value.  For the
  King of clubs and a Joker in round 7 on the final turn it returns the Joker.
\<close>

theorem C7_no_meld_discard:
  assumes "hand \<noteq> []" and "goOutIndex hand r = None"
  shows "(\<exists>c. suggestDiscard hand r [] True = Some c \<and> c \<in> set hand
             \<and> (\<forall>d \<in> set hand. getCardPoints r d \<le> getCardPoints r c))
       \<and> ((\<exists>c \<in> set hand. \<not> isWildCard c r) \<longrightarrow>
            (\<exists>c. suggestDiscard hand r [] False = Some c \<and> c \<in> set hand \<and> \<not> isWildCard c r
               \<and> (\<forall>d \<in> set hand. \<not> isWildCard d r \<longrightarrow> getCardPoints r d \<le> getCardPoints r c)))
       \<and> ((\<forall>c \<in> set hand. isWildCard c r) \<longrightarrow>
            (\<exists>c. suggestDiscard hand r [] False = Some c \<and> c \<in> set hand \<and> isWildCard c r
               \<and> (\<forall>d \<in> set hand. getCardPoints r c \<le> getCardPoints r d)))
       \<and> suggestDiscard handKJ R7 [] True = Some (mk 1 clubs Joker)"
proof (intro conjI impI)
  show "\<exists>c. suggestDiscard hand r [] True = Some c \<and> c \<in> set hand
             \<and> (\<forall>d \<in> set hand. getCardPoints r d \<le> getCardPoints r c)"
    using noMeldDiscard_final [OF assms(1), of r] suggestDiscard_no_melds [OF assms] by simp
  show "\<exists>c. suggestDiscard hand r [] False = Some c \<and> c \<in> set hand \<and> \<not> isWildCard c r
               \<and> (\<forall>d \<in> set hand. \<not> isWildCard d r \<longrightarrow> getCardPoints r d \<le> getCardPoints r c)"
    if "\<exists>c \<in> set hand. \<not> isWildCard c r"
    using noMeldDiscard_regular_nonwild [OF that] suggestDiscard_no_melds [OF assms] by simp
  show "\<exists>c. suggestDiscard hand r [] False = Some c \<and> c \<in> set hand \<and> isWildCard c r
               \<and> (\<forall>d \<in> set hand. getCardPoints r c \<le> getCardPoints r d)"
    if "\<forall>c \<in> set hand. isWildCard c r"
    using noMeldDiscard_regular_allwild [OF assms(1) that] that suggestDiscard_no_melds [OF assms]
    by auto
  show "suggestDiscard handKJ R7 [] True = Some (mk 1 clubs Joker)"
    by code_simp
qed


theorem C7_no_meld_discard_witness:
  "handKJ \<noteq> [] \<and> goOutIndex handKJ R7 = None
   \<and> suggestDiscard handKJ R7 [] False = Some (mk 0 clubs RK)"
proof -
  have ne: "handKJ \<noteq> []" by (simp add: handKJ_def)
  have g: "goOutIndex handKJ R7 = None" by code_simp
  have nw: "\<exists>c \<in> set handKJ. \<not> isWildCard c R7"
    by (simp add: handKJ_def mk_def isWildCard_def)
  from C7_no_meld_discard [OF ne g] nw
  obtain c where "suggestDiscard handKJ R7 [] False = Some c" "c \<in> set handKJ" "\<not> isWildCard c R7"
    by blast
  then have "suggestDiscard handKJ R7 [] False = Some (mk 0 clubs RK)"
    by (auto simp: handKJ_def mk_def isWildCard_def)
  with ne g show ?thesis by blast
qed

lemma unusedCardsOf_subset: "set (unusedCardsOf hand ms) \<subseteq> set hand"
proof -
  have "set (snd (foldl (unusedStep hand cs) st xs)) \<subseteq> set hand"
    if "set (snd st) \<subseteq> set hand" and "set xs \<subseteq> {0..<length hand}" for cs st xs
    using that
  proof (induction xs arbitrary: st)
    case Nil
    then show ?case by simp
  next
    case (Cons x xs)
    have "set (snd (unusedStep hand cs st x)) \<subseteq> set hand"
      using Cons.prems by (auto simp: unusedStep_def Let_def)
    with Cons show ?case by simp
  qed
  from this [of "([], [])" "[0..<length hand]"] show ?thesis
    by (simp add: unusedCardsOf_def)
qed

lemma preferNonWild_member: "preferNonWild r cands = Some c \<Longrightarrow> c \<in> set cands"
proof -
  assume a: "preferNonWild r cands = Some c"
  let ?nw = "filter (\<lambda>c. \<not> isWildCard c r) cands"
  let ?w = "filter (\<lambda>c. isWildCard c r) cands"
  show ?thesis
  proof (cases "?nw = []")
    case False
    with a reduce_pickHighest [OF False, of r] show ?thesis
      by (auto simp: preferNonWild_def Let_def)
  next
    case True
    show ?thesis
    proof (cases "?w = []")
      case False
      with a True reduce_pickLowest [OF False, of r] show ?thesis
        by (auto simp: preferNonWild_def Let_def)
    next
      case w: True
      with a True show ?thesis by (simp add: preferNonWild_def Let_def)
    qed
  qed
qed

text \<open>
  C8: for every hand that is not empty, every round, meld list and turn flag,
  \<open>suggestDiscard\<close> returns a card, and that card is one of the cards of the hand; it
  returns \<open>null\<close> on the empty hand only.
\<close>

theorem C8_suggests_a_hand_card:
  "(hand \<noteq> [] \<longrightarrow> (\<exists>c. suggestDiscard hand r ms fin = Some c \<and> c \<in> set hand))
   \<and> suggestDiscard [] r ms fin = None"
proof (intro conjI impI)
  show "suggestDiscard [] r ms fin = None" by (simp add: suggestDiscard_def)
  assume ne: "hand \<noteq> []"
  show "\<exists>c. suggestDiscard hand r ms fin = Some c \<and> c \<in> set hand"
  proof (cases "goOutIndex hand r")
    case (Some i)
    then have "i < length hand" by (auto simp: goOutIndex_def find_Some_iff)
    with Some ne show ?thesis by (simp add: suggestDiscard_def)
  next
    case None
    show ?thesis
    proof (cases "ms = []")
      case True
      with None ne noMeldDiscard_member [OF ne, of r fin] show ?thesis
        by (simp add: suggestDiscard_def)
    next
      case False
      let ?u = "unusedCardsOf hand ms"
      show ?thesis
      proof (cases "?u = []")
        case True
        with None ne False reduce_pickLowest [OF ne, of r] show ?thesis
          by (auto simp: suggestDiscard_def Let_def)
      next
        case uf: False
        show ?thesis
        proof (cases "length ?u = length hand")
          case True
          with None ne False uf noMeldDiscard_member [OF ne, of r fin] show ?thesis
            by (simp add: suggestDiscard_def Let_def)
        next
          case lf: False
          let ?v = "filter (isValidDiscard hand r) ?u"
          have sub: "set ?u \<subseteq> set hand" by (rule unusedCardsOf_subset)
          have hdu: "hd ?u \<in> set hand" using uf sub by (meson hd_in_set subsetD)
          have m1: "c \<in> set hand" if "preferNonWild r ?v = Some c" for c
            using preferNonWild_member [OF that] sub by auto
          have m2: "c \<in> set hand" if "preferNonWild r ?u = Some c" for c
            using preferNonWild_member [OF that] sub by auto
          from None ne False uf lf hdu m1 m2 show ?thesis
            by (auto simp: suggestDiscard_def Let_def split: option.splits if_splits)
        qed
      qed
    qed
  qed
qed

theorem C8_suggests_a_hand_card_witness:
  "handShare \<noteq> []
   \<and> (\<exists>c. suggestDiscard handShare R3 (findMelds handShare R3) False = Some c \<and> c \<in> set handShare)"
proof -
  have ne: "handShare \<noteq> []" by (simp add: handShare_def)
  from C8_suggests_a_hand_card [of handShare R3 "findMelds handShare R3" False] ne
  show ?thesis by blast
qed

subsection \<open>Books\<close>

lemma firstRanks_snoc:
  "firstRanks (ks @ [k]) = (if k \<in> set ks then firstRanks ks else firstRanks ks @ [k])"
  by (simp add: firstRanks_def)

lemma set_firstRanks [simp]: "set (firstRanks ks) = set ks"
  by (simp add: firstRanks_def)

lemma distinct_firstRanks [simp]: "distinct (firstRanks ks)"
  by (simp add: firstRanks_def)

lemma groupPush_known:
  assumes "distinct ks" and "rank c \<in> set ks"
  shows "groupPush (rank c) c (map (\<lambda>k. (k, filter (\<lambda>d. rank d = k) xs)) ks)
           = map (\<lambda>k. (k, filter (\<lambda>d. rank d = k) (xs @ [c]))) ks"
  using assms
proof (induction ks)
  case Nil
  then show ?case by simp
next
  case (Cons k ks)
  show ?case
  proof (cases "k = rank c")
    case True
    with Cons.prems have "rank c \<notin> set ks" by auto
    then have "map (\<lambda>k. (k, filter (\<lambda>d. rank d = k) (xs @ [c]))) ks
                 = map (\<lambda>k. (k, filter (\<lambda>d. rank d = k) xs)) ks"
      by (intro map_cong) auto
    with True show ?thesis by simp
  next
    case False
    with Cons show ?thesis by auto
  qed
qed

lemma groupPush_new:
  assumes "rank c \<notin> set ks" and "rank c \<notin> rank ` set xs"
  shows "groupPush (rank c) c (map (\<lambda>k. (k, filter (\<lambda>d. rank d = k) xs)) ks)
           = map (\<lambda>k. (k, filter (\<lambda>d. rank d = k) (xs @ [c]))) (ks @ [rank c])"
  using assms
proof (induction ks)
  case Nil
  then have "\<forall>d \<in> set xs. rank d \<noteq> rank c" by (metis imageI)
  then have "filter (\<lambda>d. rank d = rank c) xs = []"
    by (simp add: filter_empty_conv)
  then show ?case by simp
next
  case (Cons k ks)
  then show ?case by auto
qed

lemma rankGroups_eq:
  "rankGroups xs = map (\<lambda>k. (k, filter (\<lambda>d. rank d = k) xs)) (firstRanks (map rank xs))"
proof (induction xs rule: rev_induct)
  case Nil
  then show ?case by (simp add: rankGroups_def firstRanks_def)
next
  case (snoc c xs)
  have step: "rankGroups (xs @ [c]) = groupPush (rank c) c (rankGroups xs)"
    by (simp add: rankGroups_def)
  show ?case
  proof (cases "rank c \<in> rank ` set xs")
    case True
    then have "rank c \<in> set (firstRanks (map rank xs))" by simp
    from groupPush_known [OF distinct_firstRanks this, of xs] True show ?thesis
      by (simp add: step snoc.IH firstRanks_snoc)
  next
    case False
    then have "rank c \<notin> set (firstRanks (map rank xs))" by simp
    from groupPush_new [OF this False] False show ?thesis
      by (simp add: step snoc.IH firstRanks_snoc)
  qed
qed

lemma keyCount_card:
  "keyCount hand k = card {i. i < length hand \<and> cardKey (hand ! i) = k}"
  by (simp add: keyCount_def length_filter_conv_card)

lemma free_index:
  assumes "distinct used"
    and cnt: "card {i \<in> set used. cardKey (hand ! i) = k} < keyCount hand k"
  shows "\<exists>i < length hand. i \<notin> set used \<and> cardKey (hand ! i) = k"
proof (rule ccontr)
  assume "\<not> ?thesis"
  then have "{i. i < length hand \<and> cardKey (hand ! i) = k}
               \<subseteq> {i \<in> set used. cardKey (hand ! i) = k}" by auto
  then have "card {i. i < length hand \<and> cardKey (hand ! i) = k}
               \<le> card {i \<in> set used. cardKey (hand ! i) = k}"
    by (intro card_mono) auto
  with cnt show False by (simp add: keyCount_card)
qed

lemma keyCount_Cons:
  "keyCount (c # cs) k = (if cardKey c = k then Suc (keyCount cs k) else keyCount cs k)"
  by (simp add: keyCount_def)

lemma instanceIndices_complete:
  assumes "\<forall>c \<in> set cs. \<forall>h. M h c = (cardKey h = cardKey c)"
    and "distinct used" and "set used \<subseteq> {0..<length hand}"
    and "\<forall>k. card {i \<in> set used. cardKey (hand ! i) = k} + keyCount cs k \<le> keyCount hand k"
  shows "\<exists>new. instanceIndices M hand cs used = used @ new \<and> length new = length cs
               \<and> distinct (used @ new) \<and> set new \<subseteq> {0..<length hand}
               \<and> map (\<lambda>i. cardKey (hand ! i)) new = map cardKey cs"
  using assms
proof (induction cs arbitrary: used)
  case Nil
  then show ?case by simp
next
  case (Cons c cs)
  let ?k = "cardKey c"
  let ?P = "\<lambda>i. i \<notin> set used \<and> M (hand ! i) c"
  from Cons.prems(4) have "card {i \<in> set used. cardKey (hand ! i) = ?k} + keyCount (c # cs) ?k
                             \<le> keyCount hand ?k" by blast
  then have "card {i \<in> set used. cardKey (hand ! i) = ?k} < keyCount hand ?k"
    by (simp add: keyCount_Cons)
  from free_index [OF Cons.prems(2) this]
  obtain j where j: "j < length hand" "j \<notin> set used" "cardKey (hand ! j) = ?k" by blast
  with Cons.prems(1) have "?P j" by simp
  with j(1) have "\<exists>i \<in> set [0..<length hand]. ?P i" by auto
  then obtain i where f: "find ?P [0..<length hand] = Some i"
    by (cases "find ?P [0..<length hand]") (auto simp: find_None_iff)
  then have i: "i < length hand" "i \<notin> set used" "M (hand ! i) c"
    by (auto simp: find_Some_iff)
  with Cons.prems(1) have ik: "cardKey (hand ! i) = ?k" by simp
  have d: "distinct (used @ [i])" using Cons.prems(2) i(2) by simp
  have s: "set (used @ [i]) \<subseteq> {0..<length hand}" using Cons.prems(3) i(1) by simp
  have m: "\<forall>c \<in> set cs. \<forall>h. M h c = (cardKey h = cardKey c)" using Cons.prems(1) by simp
  have c: "\<forall>k. card {j \<in> set (used @ [i]). cardKey (hand ! j) = k} + keyCount cs k
                 \<le> keyCount hand k"
  proof
    fix k
    from Cons.prems(4) have old: "card {j \<in> set used. cardKey (hand ! j) = k} + keyCount (c # cs) k
                             \<le> keyCount hand k" by blast
    show "card {j \<in> set (used @ [i]). cardKey (hand ! j) = k} + keyCount cs k \<le> keyCount hand k"
    proof (cases "k = ?k")
      case True
      have "{j \<in> set (used @ [i]). cardKey (hand ! j) = k}
              = insert i {j \<in> set used. cardKey (hand ! j) = k}"
        using ik True by auto
      then have "card {j \<in> set (used @ [i]). cardKey (hand ! j) = k}
              = Suc (card {j \<in> set used. cardKey (hand ! j) = k})"
        using i(2) by simp
      with old True show ?thesis by (simp add: keyCount_Cons)
    next
      case False
      have "{j \<in> set (used @ [i]). cardKey (hand ! j) = k}
              = {j \<in> set used. cardKey (hand ! j) = k}"
        using ik False by auto
      with old False show ?thesis by (simp add: keyCount_Cons)
    qed
  qed
  from Cons.IH [OF m d s c] obtain new where
    n: "instanceIndices M hand cs (used @ [i]) = (used @ [i]) @ new" "length new = length cs"
       "distinct ((used @ [i]) @ new)" "set new \<subseteq> {0..<length hand}"
       "map (\<lambda>i. cardKey (hand ! i)) new = map cardKey cs"
    by blast
  have "instanceIndices M hand (c # cs) used = used @ (i # new)"
    using f n(1) by simp
  moreover have "length (i # new) = length (c # cs)" using n(2) by simp
  moreover have "distinct (used @ (i # new))" using n(3) by simp
  moreover have "set (i # new) \<subseteq> {0..<length hand}" using n(4) i(1) by simp
  moreover have "map (\<lambda>i. cardKey (hand ! i)) (i # new) = map cardKey (c # cs)"
    using n(5) ik by simp
  ultimately show ?case by blast
qed

lemma keyCount_append: "keyCount (xs @ ys) k = keyCount xs k + keyCount ys k"
  by (simp add: keyCount_def)

lemma keyCount_filter_le: "keyCount (filter P xs) k \<le> keyCount xs k"
  by (induction xs) (auto simp: keyCount_def)

lemma keyCount_take_le: "keyCount (take n xs) k \<le> keyCount xs k"
proof -
  have "keyCount (take n xs @ drop n xs) k = keyCount (take n xs) k + keyCount (drop n xs) k"
    by (rule keyCount_append)
  then show ?thesis by simp
qed

lemma keyCount_split:
  "keyCount (filter P xs) k + keyCount (filter (\<lambda>x. \<not> P x) xs) k = keyCount xs k"
  by (induction xs) (auto simp: keyCount_def)

lemma keyCount_wilds_regulars:
  "keyCount (wildsOf hand r) k + keyCount (regularsOf hand r) k = keyCount hand k"
  unfolding wildsOf_def regularsOf_def by (rule keyCount_split)

lemma embeds_group:
  "embeds hand (filter Q (regularsOf hand r) @ take w (wildsOf hand r))"
  unfolding embeds_def
proof
  fix k
  have "keyCount (filter Q (regularsOf hand r)) k \<le> keyCount (regularsOf hand r) k"
    by (rule keyCount_filter_le)
  moreover have "keyCount (take w (wildsOf hand r)) k \<le> keyCount (wildsOf hand r) k"
    by (rule keyCount_take_le)
  ultimately show "keyCount (filter Q (regularsOf hand r) @ take w (wildsOf hand r)) k
                     \<le> keyCount hand k"
    using keyCount_wilds_regulars [of hand r k] by (simp add: keyCount_append)
qed

lemma embeds_wilds: "embeds hand (take s (wildsOf hand r))"
  using embeds_group [of hand "\<lambda>c. False" r s] by simp

lemma instanceIndices_embeds:
  assumes "embeds hand cs" and "\<forall>c \<in> set cs. \<forall>h. M h c = (cardKey h = cardKey c)"
  shows "length (instanceIndices M hand cs []) = length cs
         \<and> distinct (instanceIndices M hand cs [])
         \<and> set (instanceIndices M hand cs []) \<subseteq> {0..<length hand}
         \<and> map (\<lambda>i. cardKey (hand ! i)) (instanceIndices M hand cs []) = map cardKey cs"
proof -
  have "\<forall>k. card {i \<in> set []. cardKey (hand ! i) = k} + keyCount cs k \<le> keyCount hand k"
    using assms(1) by (simp add: embeds_def)
  from instanceIndices_complete [OF assms(2) _ _ this]
  show ?thesis by auto
qed

lemma instanceIndices_cong:
  assumes "\<forall>c \<in> set cs. \<forall>h. M h c = M' h c"
  shows "instanceIndices M hand cs used = instanceIndices M' hand cs used"
  using assms
proof (induction cs arbitrary: used)
  case Nil
  then show ?case by simp
next
  case (Cons c cs)
  have "(\<lambda>i. i \<notin> set used \<and> M (hand ! i) c) = (\<lambda>i. i \<notin> set used \<and> M' (hand ! i) c)"
    using Cons.prems by auto
  moreover have "instanceIndices M hand cs u = instanceIndices M' hand cs u" for u
    using Cons by simp
  ultimately show ?case by (simp split: option.split)
qed

lemma emitBook_embeds:
  assumes "embeds hand cs" and "\<forall>c \<in> set cs. \<forall>h. M h c = (cardKey h = cardKey c)"
  shows "emitBook M hand cs st =
           (if keyOf hand cs \<in> set (snd st) then st
            else (fst st @ [bookOf cs], snd st @ [keyOf hand cs]))"
proof -
  have "instanceIndices M hand cs [] = instanceIndices keyMatch hand cs []"
    by (rule instanceIndices_cong) (use assms(2) in \<open>simp add: keyMatch_def\<close>)
  moreover have "length (instanceIndices M hand cs []) = length cs"
    using instanceIndices_embeds [OF assms] by simp
  ultimately show ?thesis
    by (simp add: emitBook_def Let_def keyOf_def bookOf_def)
qed

lemma sigOf_cong:
  assumes "length xs = length ys" and "rank ` set xs = rank ` set ys"
  shows "sigOf r xs = sigOf r ys"
  using assms by (simp add: sigOf_def)

lemma keyOf_sig:
  assumes "embeds hand cs"
  shows "sigOf r (map (\<lambda>i. hand ! i) (keyOf hand cs)) = sigOf r cs"
proof (rule sigOf_cong)
  let ?idxs = "instanceIndices keyMatch hand cs []"
  have a: "length ?idxs = length cs"
    and b: "map (\<lambda>i. cardKey (hand ! i)) ?idxs = map cardKey cs"
    using instanceIndices_embeds [OF assms, of keyMatch] by (simp_all add: keyMatch_def)
  show "length (map (\<lambda>i. hand ! i) (keyOf hand cs)) = length cs"
    using a by (simp add: keyOf_def)
  have "rank ` set (map (\<lambda>i. hand ! i) (keyOf hand cs)) = snd ` set (map (\<lambda>i. cardKey (hand ! i)) ?idxs)"
    by (auto simp: keyOf_def cardKey_def image_iff)
  also have "\<dots> = snd ` set (map cardKey cs)" by (simp only: b)
  also have "\<dots> = rank ` set cs" by (auto simp: cardKey_def image_iff)
  finally show "rank ` set (map (\<lambda>i. hand ! i) (keyOf hand cs)) = rank ` set cs" .
qed

lemma emit_fold:
  assumes "\<forall>cs \<in> set (done @ cands). embeds hand cs"
    and "distinct (map (sigOf r) (done @ cands))"
  shows "foldl (\<lambda>st cs. emitBook keyMatch hand cs st) (map bookOf done, map (keyOf hand) done) cands
           = (map bookOf (done @ cands), map (keyOf hand) (done @ cands))"
  using assms
proof (induction cands arbitrary: "done")
  case Nil
  then show ?case by simp
next
  case (Cons cs cands)
  have e: "embeds hand cs" using Cons.prems(1) by simp
  have fresh: "keyOf hand cs \<notin> set (map (keyOf hand) done)"
  proof
    assume "keyOf hand cs \<in> set (map (keyOf hand) done)"
    then obtain cs' where c': "cs' \<in> set done" "keyOf hand cs' = keyOf hand cs" by auto
    with Cons.prems(1) have "embeds hand cs'" by simp
    from keyOf_sig [OF this, of r] keyOf_sig [OF e, of r] c'(2)
    have "sigOf r cs' = sigOf r cs" by simp
    moreover from c'(1) have "sigOf r cs' \<in> sigOf r ` set done" by (rule imageI)
    moreover from Cons.prems(2) have "sigOf r cs \<notin> sigOf r ` set done" by auto
    ultimately show False by simp
  qed
  have step: "emitBook keyMatch hand cs (map bookOf done, map (keyOf hand) done)
                = (map bookOf (done @ [cs]), map (keyOf hand) (done @ [cs]))"
    using emitBook_embeds [OF e, of keyMatch] fresh by (simp add: keyMatch_def)
  have "\<forall>cs \<in> set ((done @ [cs]) @ cands). embeds hand cs" using Cons.prems(1) by simp
  moreover have "distinct (map (sigOf r) ((done @ [cs]) @ cands))" using Cons.prems(2) by simp
  ultimately have "foldl (\<lambda>st cs. emitBook keyMatch hand cs st)
                     (map bookOf (done @ [cs]), map (keyOf hand) (done @ [cs])) cands
           = (map bookOf ((done @ [cs]) @ cands), map (keyOf hand) ((done @ [cs]) @ cands))"
    by (rule Cons.IH)
  with step show ?case by simp
qed

lemma foldl_filter_if:
  "foldl (\<lambda>s x. if P x then f s x else s) s xs = foldl f s (filter P xs)"
  by (induction xs arbitrary: s) simp_all

lemma foldl_concat_nested:
  "foldl f s (concat xss) = foldl (\<lambda>s xs. foldl f s xs) s xss"
  by (induction xss arbitrary: s) simp_all

lemma foldl_cong_set:
  assumes "\<And>s x. x \<in> set xs \<Longrightarrow> f s x = g s x"
  shows "foldl f s xs = foldl g s xs"
  using assms by (induction xs arbitrary: s) simp_all

lemma bookMatch_keyMatch: "bookMatch h c = keyMatch h c"
  by (auto simp: bookMatch_def keyMatch_def cardKey_def)

lemma wildBookMatch_keyMatch:
  assumes "isWildCard c r"
  shows "wildBookMatch r h c = keyMatch h c"
  using assms by (auto simp: wildBookMatch_def keyMatch_def cardKey_def isWildCard_def)

lemma groupBooks_fold:
  "groupBooks hand ws st g
     = foldl (\<lambda>st cs. emitBook keyMatch hand cs st) st (groupCands ws (snd g))"
proof -
  have bk: "emitBook bookMatch hand cs s = emitBook keyMatch hand cs s" for cs s
  proof -
    have "bookMatch = keyMatch" by (intro ext) (rule bookMatch_keyMatch)
    then show ?thesis by simp
  qed
  have gb: "groupBook hand ws (snd g) = (\<lambda>s w. if length (snd g) + w \<ge> 3
               then emitBook keyMatch hand (snd g @ take w ws) s else s)"
    by (intro ext) (simp add: groupBook_def bk)
  have full: "foldl (groupBook hand ws (snd g)) st [0..<Suc (length ws)]
          = foldl (\<lambda>st cs. emitBook keyMatch hand cs st) st (groupCands ws (snd g))"
    unfolding gb groupCands_def foldl_map by (rule foldl_filter_if)
  show ?thesis
  proof (cases "length (snd g) + length ws \<ge> 3")
    case True
    with full show ?thesis by (simp add: groupBooks_def)
  next
    case False
    then have "filter (\<lambda>w. length (snd g) + w \<ge> 3) [0..<Suc (length ws)] = []"
      by (auto simp: filter_empty_conv)
    then have "groupCands ws (snd g) = []" by (simp add: groupCands_def)
    with False show ?thesis by (simp add: groupBooks_def)
  qed
qed

lemma findBooks_fold:
  "findBooks hand r
     = fst (foldl (\<lambda>st cs. emitBook keyMatch hand cs st) ([], []) (bookCandidates hand r))"
proof -
  let ?ws = "wildsOf hand r"
  let ?emit = "\<lambda>st cs. emitBook keyMatch hand cs st"
  define st where "st = foldl (groupBooks hand ?ws) ([], []) (rankGroups (regularsOf hand r))"
  have st_eq: "st = foldl ?emit ([], [])
                  (concat (map (\<lambda>g. groupCands ?ws (snd g)) (rankGroups (regularsOf hand r))))"
    unfolding st_def foldl_concat_nested foldl_map
    by (rule foldl_cong_set) (rule groupBooks_fold)
  have wb: "foldl (wildBook hand r ?ws) st [3..<Suc (length ?ws)]
              = foldl ?emit st (map (\<lambda>s. take s ?ws) [3..<Suc (length ?ws)])"
    unfolding foldl_map
  proof (rule foldl_cong_set)
    fix s :: "meld list \<times> key list" and x
    have "\<forall>c \<in> set (take x ?ws). \<forall>h. wildBookMatch r h c = keyMatch h c"
    proof (intro ballI allI)
      fix c h
      assume "c \<in> set (take x ?ws)"
      then have "c \<in> set ?ws" by (rule in_set_takeD)
      then have "isWildCard c r" by (simp add: wildsOf_def)
      then show "wildBookMatch r h c = keyMatch h c" by (rule wildBookMatch_keyMatch)
    qed
    then have "instanceIndices (wildBookMatch r) hand (take x ?ws) []
                 = instanceIndices keyMatch hand (take x ?ws) []"
      by (rule instanceIndices_cong)
    then show "wildBook hand r ?ws s x = emitBook keyMatch hand (take x ?ws) s"
      by (simp add: wildBook_def emitBook_def)
  qed
  have small: "[3..<Suc (length ?ws)] = []" if "\<not> length ?ws \<ge> 3"
    using that by simp
  have "findBooks hand r = fst (if length ?ws \<ge> 3
            then foldl (wildBook hand r ?ws) st [3..<Suc (length ?ws)] else st)"
    by (simp only: findBooks_def Let_def st_def wildsOf_def regularsOf_def)
  also have "\<dots> = fst (foldl (wildBook hand r ?ws) st [3..<Suc (length ?ws)])"
    using small by (cases "length ?ws \<ge> 3") simp_all
  also have "\<dots> = fst (foldl ?emit st (map (\<lambda>s. take s ?ws) [3..<Suc (length ?ws)]))"
    by (simp only: wb)
  also have "\<dots> = fst (foldl ?emit ([], []) (bookCandidates hand r))"
    by (simp only: st_eq bookCandidates_def foldl_append)
  finally show ?thesis .
qed

lemma bookCandidates_eq:
  "bookCandidates hand r =
     concat (map (\<lambda>k. groupCands (wildsOf hand r) (rankGroup hand r k))
               (firstRanks (map rank (regularsOf hand r))))
     @ map (\<lambda>s. take s (wildsOf hand r)) [3..<Suc (length (wildsOf hand r))]"
  by (simp add: bookCandidates_def rankGroups_eq rankGroup_def comp_def)

lemma specBooks_candidates: "map bookOf (bookCandidates hand r) = specBooks hand r"
  by (simp add: bookCandidates_eq specBooks_def groupBooksSpec_def [abs_def] groupCands_def
        map_concat comp_def del: upt_Suc)

lemma wild_rank: "isWildCard c r \<Longrightarrow> rank c = r \<or> rank c = Joker"
  by (simp add: isWildCard_def)

lemma sigOf_group:
  assumes "k \<in> rank ` set (regularsOf hand r)" and "w \<le> length (wildsOf hand r)"
  shows "sigOf r (rankGroup hand r k @ take w (wildsOf hand r))
           = (length (rankGroup hand r k) + w, {k})"
proof -
  from assms(1) obtain c where c: "c \<in> set (regularsOf hand r)" "rank c = k" by auto
  then have nw: "k \<noteq> r" "k \<noteq> Joker" by (auto simp: regularsOf_def isWildCard_def)
  from c have g: "rank ` set (rankGroup hand r k) = {k}"
    by (auto simp: rankGroup_def)
  have w: "\<forall>d \<in> set (take w (wildsOf hand r)). rank d = r \<or> rank d = Joker"
  proof
    fix d assume "d \<in> set (take w (wildsOf hand r))"
    then have "d \<in> set (wildsOf hand r)" by (rule in_set_takeD)
    then show "rank d = r \<or> rank d = Joker" by (simp add: wildsOf_def wild_rank)
  qed
  have "{k' \<in> rank ` set (rankGroup hand r k @ take w (wildsOf hand r)). k' \<noteq> r \<and> k' \<noteq> Joker} = {k}"
    using g w nw by auto
  moreover have "length (take w (wildsOf hand r)) = w" using assms(2) by simp
  ultimately show ?thesis by (simp add: sigOf_def)
qed

lemma sigOf_wilds:
  assumes "s \<le> length (wildsOf hand r)"
  shows "sigOf r (take s (wildsOf hand r)) = (s, {})"
proof -
  have "\<forall>d \<in> set (take s (wildsOf hand r)). rank d = r \<or> rank d = Joker"
  proof
    fix d assume "d \<in> set (take s (wildsOf hand r))"
    then have "d \<in> set (wildsOf hand r)" by (rule in_set_takeD)
    then show "rank d = r \<or> rank d = Joker" by (simp add: wildsOf_def wild_rank)
  qed
  then have "{k' \<in> rank ` set (take s (wildsOf hand r)). k' \<noteq> r \<and> k' \<noteq> Joker} = {}" by auto
  moreover have "length (take s (wildsOf hand r)) = s" using assms by simp
  ultimately show ?thesis by (simp add: sigOf_def)
qed

lemma distinct_labelled_concat:
  assumes "distinct ks" and "\<And>k. k \<in> set ks \<Longrightarrow> distinct (F k)"
    and "\<And>k x. k \<in> set ks \<Longrightarrow> x \<in> set (F k) \<Longrightarrow> lab x = k"
  shows "distinct (concat (map F ks))"
  using assms
proof (induction ks)
  case Nil
  then show ?case by simp
next
  case (Cons k ks)
  have "distinct (concat (map F ks))" using Cons by simp
  moreover have "distinct (F k)" using Cons.prems(2) by simp
  moreover have "set (F k) \<inter> set (concat (map F ks)) = {}"
  proof (rule ccontr)
    assume "set (F k) \<inter> set (concat (map F ks)) \<noteq> {}"
    then obtain x k' where x: "x \<in> set (F k)" "k' \<in> set ks" "x \<in> set (F k')" by auto
    from Cons.prems(3) [of k x] x(1) have "lab x = k" by simp
    moreover from Cons.prems(3) [of k' x] x(2,3) have "lab x = k'" by simp
    ultimately show False using Cons.prems(1) x(2) by simp
  qed
  ultimately show ?case by simp
qed

lemma groupCands_sigs:
  assumes "k \<in> rank ` set (regularsOf hand r)"
  shows "map (sigOf r) (groupCands (wildsOf hand r) (rankGroup hand r k))
           = map (\<lambda>w. (length (rankGroup hand r k) + w, {k}))
               (filter (\<lambda>w. length (rankGroup hand r k) + w \<ge> 3) [0..<Suc (length (wildsOf hand r))])"
  unfolding groupCands_def map_map comp_def
  by (rule map_cong [OF refl]) (use sigOf_group [OF assms] in \<open>auto simp del: upt_Suc\<close>)

lemma wildCands_sigs:
  "map (sigOf r) (map (\<lambda>s. take s (wildsOf hand r)) [3..<Suc (length (wildsOf hand r))])
     = map (\<lambda>s. (s, {})) [3..<Suc (length (wildsOf hand r))]"
  unfolding map_map comp_def
  by (rule map_cong [OF refl]) (use sigOf_wilds in \<open>auto simp del: upt_Suc\<close>)

lemma distinct_candidate_sigs: "distinct (map (sigOf r) (bookCandidates hand r))"
proof -
  let ?ks = "firstRanks (map rank (regularsOf hand r))"
  let ?F = "\<lambda>k. map (sigOf r) (groupCands (wildsOf hand r) (rankGroup hand r k))"
  let ?B = "map (sigOf r) (map (\<lambda>s. take s (wildsOf hand r)) [3..<Suc (length (wildsOf hand r))])"
  have ks: "k \<in> rank ` set (regularsOf hand r)" if "k \<in> set ?ks" for k
    using that by simp
  have dF: "distinct (?F k)" if "k \<in> set ?ks" for k
    unfolding groupCands_sigs [OF ks [OF that]]
    by (simp add: distinct_map inj_on_def del: upt_Suc)
  have lab: "the_elem (snd x) = k" if "k \<in> set ?ks" "x \<in> set (?F k)" for k x
    using that(2) unfolding groupCands_sigs [OF ks [OF that(1)]] by (auto simp del: upt_Suc)
  have dA: "distinct (concat (map ?F ?ks))"
    by (rule distinct_labelled_concat [where lab = "\<lambda>x. the_elem (snd x)"])
       (simp_all add: dF lab)
  have dB: "distinct ?B"
    unfolding wildCands_sigs by (simp add: distinct_map inj_on_def del: upt_Suc)
  have sA: "snd x \<noteq> {}" if "x \<in> set (concat (map ?F ?ks))" for x
  proof -
    from that obtain k where k: "k \<in> set ?ks" "x \<in> set (?F k)" by auto
    from k(2) show ?thesis unfolding groupCands_sigs [OF ks [OF k(1)]] by (auto simp del: upt_Suc)
  qed
  have sB: "snd x = {}" if "x \<in> set ?B" for x
    using that unfolding wildCands_sigs by (auto simp del: upt_Suc)
  have "set (concat (map ?F ?ks)) \<inter> set ?B = {}"
    using sA sB by blast
  with dA dB have "distinct (concat (map ?F ?ks) @ ?B)" by simp
  moreover have "map (sigOf r) (bookCandidates hand r) = concat (map ?F ?ks) @ ?B"
    by (simp add: bookCandidates_eq map_concat comp_def del: upt_Suc)
  ultimately show ?thesis by simp
qed

lemma embeds_candidates: "\<forall>cs \<in> set (bookCandidates hand r). embeds hand cs"
proof
  fix cs
  assume "cs \<in> set (bookCandidates hand r)"
  then consider k w where "cs = rankGroup hand r k @ take w (wildsOf hand r)"
    | s where "cs = take s (wildsOf hand r)"
    by (auto simp: bookCandidates_eq groupCands_def simp del: upt_Suc)
  then show "embeds hand cs"
  proof cases
    case 1
    then show ?thesis by (simp add: rankGroup_def embeds_group)
  next
    case 2
    then show ?thesis by (simp add: embeds_wilds)
  qed
qed

lemma findBooks_spec: "findBooks hand r = specBooks hand r"
proof -
  have "foldl (\<lambda>st cs. emitBook keyMatch hand cs st) (map bookOf [], map (keyOf hand) [])
          (bookCandidates hand r)
        = (map bookOf ([] @ bookCandidates hand r), map (keyOf hand) ([] @ bookCandidates hand r))"
    by (rule emit_fold [where r = r])
       (simp_all add: embeds_candidates distinct_candidate_sigs)
  then show ?thesis by (simp add: findBooks_fold specBooks_candidates)
qed

lemma length_group_wilds:
  "length (rankGroup hand r k) + length (wildsOf hand r) \<le> length hand"
proof -
  have "length (rankGroup hand r k) \<le> length (regularsOf hand r)"
    by (simp add: rankGroup_def)
  moreover have "length (wildsOf hand r) + length (regularsOf hand r) = length hand"
    unfolding wildsOf_def regularsOf_def by (rule sum_length_filter_compl)
  ultimately show ?thesis by simp
qed

lemma specBooks_small:
  assumes "length hand < 3"
  shows "specBooks hand r = []"
proof -
  have "filter (\<lambda>w. length (rankGroup hand r k) + w \<ge> 3) [0..<Suc (length (wildsOf hand r))] = []"
    for k
    using length_group_wilds [of hand r k] assms by (auto simp: filter_empty_conv simp del: upt_Suc)
  then have "groupBooksSpec hand r k = []" for k by (simp add: groupBooksSpec_def)
  moreover have "[3..<Suc (length (wildsOf hand r))] = []"
    using length_group_wilds [of hand r R3] assms by simp
  ultimately show ?thesis by (simp add: specBooks_def)
qed

lemma specBooks_type: "\<forall>m \<in> set (specBooks hand r). type m = book"
  unfolding specBooks_candidates [symmetric] by (simp add: bookOf_def)

lemma books_of_findMelds:
  "filter (\<lambda>m. type m = book) (findMelds hand r) = specBooks hand r"
proof (cases "length hand < 3")
  case True
  then show ?thesis by (simp add: findMelds_def specBooks_small)
next
  case False
  have "filter (\<lambda>m. type m = book) (findRuns hand r) = []"
    using findRuns_proper [of hand r] by (auto simp: filter_empty_conv properRun_def)
  moreover have "filter (\<lambda>m. type m = book) (specBooks hand r) = specBooks hand r"
    using specBooks_type [of hand r] by (simp add: filter_id_conv)
  ultimately show ?thesis using False by (simp add: findMelds_def findBooks_spec)
qed

lemma distinct_candidates:
  assumes "distinct hand"
  shows "\<forall>cs \<in> set (bookCandidates hand r). distinct cs"
proof
  fix cs
  assume "cs \<in> set (bookCandidates hand r)"
  then consider k w where "cs = rankGroup hand r k @ take w (wildsOf hand r)"
    | s where "cs = take s (wildsOf hand r)"
    by (auto simp: bookCandidates_eq groupCands_def simp del: upt_Suc)
  then show "distinct cs"
  proof cases
    case 1
    have "set (rankGroup hand r k) \<inter> set (take w (wildsOf hand r)) = {}"
    proof (rule ccontr)
      assume "set (rankGroup hand r k) \<inter> set (take w (wildsOf hand r)) \<noteq> {}"
      then obtain c where "c \<in> set (rankGroup hand r k)" "c \<in> set (take w (wildsOf hand r))"
        by auto
      then have "\<not> isWildCard c r" "c \<in> set (wildsOf hand r)"
        by (auto simp: rankGroup_def regularsOf_def dest: in_set_takeD)
      then show False by (simp add: wildsOf_def)
    qed
    with assms 1 show ?thesis
      by (simp add: rankGroup_def regularsOf_def wildsOf_def)
  next
    case 2
    with assms show ?thesis by (simp add: wildsOf_def)
  qed
qed

lemma distinct_instance_sets:
  assumes "distinct hand"
  shows "distinct (map (\<lambda>m. set (cards m)) (specBooks hand r))"
proof -
  let ?cands = "bookCandidates hand r"
  from distinct_candidate_sigs [of r hand]
  have d: "distinct ?cands" and inj: "inj_on (sigOf r) (set ?cands)"
    by (simp_all add: distinct_map)
  have "inj_on set (set ?cands)"
  proof (rule inj_onI)
    fix a b
    assume a: "a \<in> set ?cands" and b: "b \<in> set ?cands" and eq: "set a = set b"
    from distinct_candidates [OF assms] a b have "distinct a" "distinct b" by auto
    then have "length a = length b" using eq by (metis distinct_card)
    with eq have "sigOf r a = sigOf r b" by (simp add: sigOf_def)
    with inj a b show "a = b" by (simp add: inj_on_def)
  qed
  with d have "distinct (map set ?cands)" by (simp add: distinct_map)
  moreover have "map (\<lambda>m. set (cards m)) (specBooks hand r) = map set ?cands"
    unfolding specBooks_candidates [symmetric] by (simp add: bookOf_def comp_def)
  ultimately show ?thesis by simp
qed

lemma distinct_specBooks: "distinct (specBooks hand r)"
proof -
  from distinct_candidate_sigs [of r hand] have "distinct (bookCandidates hand r)"
    by (simp add: distinct_map)
  moreover have "inj bookOf" by (auto simp: inj_on_def bookOf_def)
  ultimately show ?thesis
    unfolding specBooks_candidates [symmetric]
    by (simp add: distinct_map inj_on_def)
qed

text \<open>
  C4: for every hand and round, the books that \<open>findMelds\<close> returns are exactly the books
  of the specification, each once: for every rank group of \<open>r\<close> cards that are not wild
  and every number \<open>w\<close> of wild cards from 0 to the number of wild cards of the hand with
  \<open>r + w \<ge> 3\<close>, the book of the whole group and the first \<open>w\<close> wild cards, and for
  every size from 3 to the number of wild cards the book of that many first wild cards.  No
  book is listed twice, and when the cards of the hand are distinct objects no two books
  have the same set of cards.
\<close>

theorem C4_books_of_findMelds:
  "filter (\<lambda>m. type m = book) (findMelds hand r) = specBooks hand r
   \<and> distinct (specBooks hand r)
   \<and> (distinct hand \<longrightarrow> distinct (map (\<lambda>m. set (cards m)) (specBooks hand r)))"
  using books_of_findMelds distinct_specBooks distinct_instance_sets by blast

theorem C4_books_of_findMelds_witness:
  "distinct handShare
   \<and> length (filter (\<lambda>m. type m = book) (findMelds handShare R3)) = 6
   \<and> distinct (map (\<lambda>m. set (cards m)) (filter (\<lambda>m. type m = book) (findMelds handShare R3)))"
proof -
  have d: "distinct handShare" by (simp add: handShare_def mk_def)
  have l: "length (specBooks handShare R3) = 6" by code_simp
  from C4_books_of_findMelds [of handShare R3] d l show ?thesis by simp
qed

subsection \<open>The store: what a call of the enumeration changes\<close>

lemma ext_refl [simp]: "ext s s"
  by (simp add: ext_def)

lemma ext_trans: "ext s s' \<Longrightarrow> ext s' s'' \<Longrightarrow> ext s s''"
  by (auto simp: ext_def)

lemma ext_arrays: "ext s s' \<Longrightarrow> a < fresh s \<Longrightarrow> arrays s' a = arrays s a"
  by (simp add: ext_def)

lemma ext_fresh: "ext s s' \<Longrightarrow> a < fresh s \<Longrightarrow> a < fresh s'"
  by (simp add: ext_def)

lemma ext_alloc: "ext s (snd (alloc xs s))"
  by (simp add: ext_def alloc_def)

lemma alloc_simps [simp]:
  "fst (alloc xs s) = fresh s"
  "fresh (snd (alloc xs s)) = Suc (fresh s)"
  "arrays (snd (alloc xs s)) a = (if a = fresh s then xs else arrays s a)"
  by (simp_all add: alloc_def)

lemma deref_ext: "ext s s' \<Longrightarrow> scards m < fresh s \<Longrightarrow> deref s' m = deref s m"
  by (simp add: deref_def ext_def)

lemma map_deref_ext:
  assumes "ext s s'" and "\<forall>m \<in> set ms. scards m < fresh s"
  shows "map (deref s') ms = map (deref s) ms"
  using assms by (simp add: deref_ext)

lemma absState_ext:
  assumes "ext s s'" and "wfState (ms, seen, s)"
  shows "absState (ms, seen, s') = absState (ms, seen, s)"
  using assms by (simp add: absState_def storeOf_def wfState_def map_deref_ext)

lemma wfState_ext:
  assumes "ext s s'" and "wfState (ms, seen, s)"
  shows "wfState (ms, seen', s')"
  using assms by (auto simp: wfState_def storeOf_def ext_def)

lemma fold_refine:
  assumes step: "\<And>st x. x \<in> set xs \<Longrightarrow> wfState st \<Longrightarrow> ext s0 (storeOf st) \<Longrightarrow>
            ext (storeOf st) (storeOf (fs st x)) \<and> wfState (fs st x) \<and> absState (fs st x) = f (absState st) x"
    and "wfState st0" and "ext s0 (storeOf st0)"
  shows "ext (storeOf st0) (storeOf (foldl fs st0 xs)) \<and> wfState (foldl fs st0 xs)
         \<and> absState (foldl fs st0 xs) = foldl f (absState st0) xs"
  using assms
proof (induction xs arbitrary: st0)
  case Nil
  then show ?case by simp
next
  case (Cons x xs)
  from Cons.prems(1) [of x st0] Cons.prems(2,3)
  have a: "ext (storeOf st0) (storeOf (fs st0 x))" "wfState (fs st0 x)"
    "absState (fs st0 x) = f (absState st0) x" by simp_all
  from ext_trans [OF Cons.prems(3) a(1)] have e: "ext s0 (storeOf (fs st0 x))" .
  have "ext (storeOf (fs st0 x)) (storeOf (foldl fs (fs st0 x) xs)) \<and> wfState (foldl fs (fs st0 x) xs)
         \<and> absState (foldl fs (fs st0 x) xs) = foldl f (absState (fs st0 x)) xs"
    by (rule Cons.IH [OF _ a(2) e]) (use Cons.prems(1) in simp)
  with a ext_trans [OF a(1)] show ?case by simp
qed

lemma emitBook_st_refine:
  assumes "wfState (bs, seen, s)" and "bc < fresh s"
  shows "storeOf (emitBook_st M h bc (bs, seen, s)) = s
         \<and> wfState (emitBook_st M h bc (bs, seen, s))
         \<and> absState (emitBook_st M h bc (bs, seen, s))
             = emitBook M (arrays s h) (arrays s bc) (absState (bs, seen, s))"
  using assms
  by (simp add: emitBook_st_def emitBook_def Let_def storeOf_def wfState_def absState_def deref_def)

lemma groupBook_st_refine:
  assumes wf: "wfState (bs, seen, s)" and h: "h < fresh s" and wa: "wa < fresh s" and ga: "ga < fresh s"
  shows "ext s (storeOf (groupBook_st h wa ga (bs, seen, s) n))
         \<and> wfState (groupBook_st h wa ga (bs, seen, s) n)
         \<and> absState (groupBook_st h wa ga (bs, seen, s) n)
             = groupBook (arrays s h) (arrays s wa) (arrays s ga) (absState (bs, seen, s)) n"
proof (cases "length (arrays s ga) + n \<ge> 3")
  case False
  with wf show ?thesis by (simp add: groupBook_st_def groupBook_def storeOf_def)
next
  case True
  define s1 where "s1 = snd (alloc (take n (arrays s wa)) s)"
  define s2 where "s2 = snd (alloc (arrays s1 ga @ arrays s1 (fresh s)) s1)"
  have e1: "ext s s1" unfolding s1_def by (rule ext_alloc)
  have e2: "ext s1 s2" unfolding s2_def by (rule ext_alloc)
  have e: "ext s s2" using e1 e2 by (rule ext_trans)
  have f1: "fresh s1 = Suc (fresh s)" by (simp add: s1_def)
  have bc: "arrays s2 (fresh s1) = arrays s ga @ take n (arrays s wa)"
    using ga by (simp add: s2_def s1_def)
  have hh: "arrays s2 h = arrays s h" using ext_arrays [OF e h] .
  have wf2: "wfState (bs, seen, s2)" using wfState_ext [OF e wf] .
  have bc2: "fresh s1 < fresh s2" by (simp add: s2_def)
  have eq: "groupBook_st h wa ga (bs, seen, s) n = emitBook_st bookMatch h (fresh s1) (bs, seen, s2)"
    using True by (simp add: groupBook_st_def s1_def s2_def alloc_def Let_def)
  from emitBook_st_refine [OF wf2 bc2, of bookMatch h]
  show ?thesis
    unfolding eq using e True absState_ext [OF e wf]
    by (simp add: groupBook_def bc hh)
qed

lemma groupBooks_st_refine:
  assumes wf: "wfState (bs, seen, s)" and h: "h < fresh s" and wa: "wa < fresh s"
    and ga: "snd g < fresh s"
  shows "ext s (storeOf (groupBooks_st h wa (bs, seen, s) g))
         \<and> wfState (groupBooks_st h wa (bs, seen, s) g)
         \<and> absState (groupBooks_st h wa (bs, seen, s) g)
             = groupBooks (arrays s h) (arrays s wa) (absState (bs, seen, s)) (fst g, arrays s (snd g))"
proof (cases "length (arrays s (snd g)) + length (arrays s wa) \<ge> 3")
  case False
  with wf show ?thesis by (simp add: groupBooks_st_def groupBooks_def storeOf_def)
next
  case True
  let ?xs = "[0..<Suc (length (arrays s wa))]"
  have "ext (storeOf (bs, seen, s)) (storeOf (foldl (groupBook_st h wa (snd g)) (bs, seen, s) ?xs))
        \<and> wfState (foldl (groupBook_st h wa (snd g)) (bs, seen, s) ?xs)
        \<and> absState (foldl (groupBook_st h wa (snd g)) (bs, seen, s) ?xs)
            = foldl (groupBook (arrays s h) (arrays s wa) (arrays s (snd g))) (absState (bs, seen, s)) ?xs"
  proof (rule fold_refine [where ?s0.0 = s])
    show "wfState (bs, seen, s)" by (rule wf)
    show "ext s (storeOf (bs, seen, s))" by (simp add: storeOf_def)
    fix st :: sstate and x
    assume w: "wfState st" and e: "ext s (storeOf st)"
    obtain bs' seen' s' where st: "st = (bs', seen', s')" by (cases st) auto
    from e have e': "ext s s'" by (simp add: st storeOf_def)
    from groupBook_st_refine [of bs' seen' s' h wa "snd g" x] w
      ext_fresh [OF e' h] ext_fresh [OF e' wa] ext_fresh [OF e' ga]
    show "ext (storeOf st) (storeOf (groupBook_st h wa (snd g) st x))
          \<and> wfState (groupBook_st h wa (snd g) st x)
          \<and> absState (groupBook_st h wa (snd g) st x)
              = groupBook (arrays s h) (arrays s wa) (arrays s (snd g)) (absState st) x"
      by (simp add: st storeOf_def ext_arrays [OF e' h] ext_arrays [OF e' wa] ext_arrays [OF e' ga])
  qed
  with True show ?thesis by (simp add: groupBooks_st_def groupBooks_def storeOf_def)
qed

lemma wildBook_st_refine:
  assumes wf: "wfState (bs, seen, s)" and h: "h < fresh s" and wa: "wa < fresh s"
  shows "ext s (storeOf (wildBook_st h r wa (bs, seen, s) n))
         \<and> wfState (wildBook_st h r wa (bs, seen, s) n)
         \<and> absState (wildBook_st h r wa (bs, seen, s) n)
             = wildBook (arrays s h) r (arrays s wa) (absState (bs, seen, s)) n"
proof -
  define s1 where "s1 = snd (alloc (take n (arrays s wa)) s)"
  have e: "ext s s1" unfolding s1_def by (rule ext_alloc)
  have bc: "arrays s1 (fresh s) = take n (arrays s wa)" by (simp add: s1_def)
  have hh: "arrays s1 h = arrays s h" using ext_arrays [OF e h] .
  have wf1: "wfState (bs, seen, s1)" using wfState_ext [OF e wf] .
  have b1: "fresh s < fresh s1" by (simp add: s1_def)
  have eq: "wildBook_st h r wa (bs, seen, s) n = emitBook_st (wildBookMatch r) h (fresh s) (bs, seen, s1)"
    by (simp add: wildBook_st_def s1_def alloc_def Let_def)
  from emitBook_st_refine [OF wf1 b1, of "wildBookMatch r" h]
  show ?thesis
    unfolding eq using e absState_ext [OF e wf]
    by (simp add: wildBook_def bc hh)
qed

lemma push_simps [simp]:
  "fresh (push a c s) = fresh s"
  "arrays (push a c s) b = (if b = a then arrays s a @ [c] else arrays s b)"
  by (simp_all add: push_def)

lemma groupPush_known_addr:
  assumes "map_of g k = Some a" and "distinct (map snd g)"
  shows "map (\<lambda>x. (fst x, arrays (push a c s) (snd x))) g
           = groupPush k c (map (\<lambda>x. (fst x, arrays s (snd x))) g)"
  using assms
proof (induction g)
  case Nil
  then show ?case by simp
next
  case (Cons x g)
  obtain k' a' where x: "x = (k', a')" by (cases x) auto
  show ?case
  proof (cases "k' = k")
    case True
    with Cons.prems x have a: "a' = a" by simp
    from Cons.prems(2) x a have "\<forall>y \<in> set g. snd y \<noteq> a" by auto
    then have "map (\<lambda>x. (fst x, arrays (push a c s) (snd x))) g
                 = map (\<lambda>x. (fst x, arrays s (snd x))) g"
      by (intro map_cong) auto
    with True x a show ?thesis by simp
  next
    case False
    with Cons.prems x have m: "map_of g k = Some a" by simp
    from Cons.prems(2) have d: "distinct (map snd g)" by simp
    from m have "a \<in> snd ` set g" by (metis map_of_SomeD image_eqI snd_conv)
    with Cons.prems(2) x have "a' \<noteq> a" by auto
    with Cons.IH [OF m d] False x show ?thesis by simp
  qed
qed

lemma groupPush_new_addr:
  assumes "map_of g k = None" and "map fst pg = map fst g"
  shows "groupPush k c pg = pg @ [(k, [c])]"
  using assms
proof (induction pg arbitrary: g)
  case Nil
  then show ?case by simp
next
  case (Cons p pg)
  then obtain x g' where g: "g = x # g'" by (cases g) auto
  obtain k' v where p: "p = (k', v)" by (cases p) auto
  from Cons.prems g p have "k' \<noteq> k" "map_of g' k = None" "map fst pg = map fst g'"
    by (auto split: if_splits)
  with Cons.IH [of g'] p show ?case by simp
qed

lemma groupPush_st_rel:
  assumes "groupsRel s0 gs pg"
  shows "groupsRel s0 (groupPush_st k c gs) (groupPush k c pg)"
proof -
  obtain g s where gs: "gs = (g, s)" by (cases gs) auto
  from assms have e: "ext s0 s" and d: "distinct (map snd g)"
    and b: "\<forall>x \<in> set g. fresh s0 \<le> snd x \<and> snd x < fresh s"
    and pg: "map (\<lambda>x. (fst x, arrays s (snd x))) g = pg"
    by (simp_all add: groupsRel_def gs)
  show ?thesis
  proof (cases "map_of g k")
    case (Some a)
    then have "a \<in> snd ` set g" by (metis map_of_SomeD image_eqI snd_conv)
    with b have a: "fresh s0 \<le> a" by auto
    have e': "ext s0 (push a c s)" using e a by (auto simp: ext_def)
    have "map (\<lambda>x. (fst x, arrays (push a c s) (snd x))) g = groupPush k c pg"
      using groupPush_known_addr [OF Some d] pg by simp
    with Some e' d b show ?thesis
      by (simp add: groupPush_st_def gs groupsRel_def)
  next
    case None
    let ?a = "fresh s"
    let ?s' = "push ?a c (snd (alloc [] s))"
    have e': "ext s0 ?s'" using e by (auto simp: ext_def)
    have na: "\<forall>x \<in> set g. snd x \<noteq> ?a" using b by auto
    have old: "map (\<lambda>x. (fst x, arrays ?s' (snd x))) g = pg"
      using na pg by (auto intro!: map_cong [where g = "\<lambda>x. (fst x, arrays s (snd x))", OF refl, THEN trans])
    have "map fst pg = map fst g" using pg by auto
    from groupPush_new_addr [OF None this] have new: "groupPush k c pg = pg @ [(k, [c])]" .
    have "fresh s0 \<le> ?a" using e by (simp add: ext_def)
    with None e' d b na old new show ?thesis
      by (auto simp: groupPush_st_def gs groupsRel_def alloc_def Let_def less_Suc_eq)
  qed
qed

lemma fold_rel:
  assumes "Rl st0 p0" and "\<And>st p x. x \<in> set xs \<Longrightarrow> Rl st p \<Longrightarrow> Rl (fs st x) (f p x)"
  shows "Rl (foldl fs st0 xs) (foldl f p0 xs)"
  using assms by (induction xs arbitrary: st0 p0) auto

lemma groupsRel_init: "groupsRel s ([], s) []"
  by (simp add: groupsRel_def)

lemma rankGroups_st_rel: "groupsRel s (rankGroups_st ra s) (rankGroups (arrays s ra))"
  unfolding rankGroups_st_def rankGroups_def
  by (rule fold_rel [where Rl = "groupsRel s"]) (simp_all add: groupsRel_init groupPush_st_rel)

lemma wfState_init [simp]: "wfState ([], seen, s)"
  by (simp add: wfState_def)

lemma findBooks_st_refine:
  assumes h: "h < fresh s"
  shows "ext s (snd (findBooks_st h r s))
         \<and> (\<forall>m \<in> set (fst (findBooks_st h r s)). scards m < fresh (snd (findBooks_st h r s)))
         \<and> map (deref (snd (findBooks_st h r s))) (fst (findBooks_st h r s)) = findBooks (arrays s h) r"
proof -
  define H where "H = arrays s h"
  define W where "W = filter (\<lambda>c. isWildCard c r) H"
  define wa where "wa = fresh s"
  define s1 where "s1 = snd (alloc W s)"
  define ra where "ra = fresh s1"
  define s2 where "s2 = snd (alloc (filter (\<lambda>c. \<not> isWildCard c r) (arrays s1 h)) s1)"
  define gs where "gs = rankGroups_st ra s2"
  define s3 where "s3 = snd gs"
  define st where "st = foldl (groupBooks_st h wa) ([], [], s3) (fst gs)"
  define st' where "st' = (if length (arrays (storeOf st) wa) \<ge> 3
                 then foldl (wildBook_st h r wa) st [3..<Suc (length (arrays (storeOf st) wa))]
                 else st)"
  have e1: "ext s s1" unfolding s1_def by (rule ext_alloc)
  have e2: "ext s1 s2" unfolding s2_def by (rule ext_alloc)
  have h1: "arrays s1 h = H" using ext_arrays [OF e1 h] by (simp add: H_def)
  have ra2: "arrays s2 ra = filter (\<lambda>c. \<not> isWildCard c r) H"
    by (simp add: s2_def ra_def h1)
  have rel: "groupsRel s2 gs (rankGroups (filter (\<lambda>c. \<not> isWildCard c r) H))"
    using rankGroups_st_rel [of s2 ra] by (simp add: gs_def ra2)
  then have e3: "ext s2 s3" and gb: "\<forall>g \<in> set (fst gs). snd g < fresh s3"
    and gm: "map (\<lambda>g. (fst g, arrays s3 (snd g))) (fst gs)
               = rankGroups (filter (\<lambda>c. \<not> isWildCard c r) H)"
    by (simp_all add: groupsRel_def s3_def)
  have e03: "ext s s3" using e1 e2 e3 by (blast intro: ext_trans)
  have h3: "h < fresh s3" using ext_fresh [OF e03 h] .
  have wa3: "wa < fresh s3" using e2 e3 by (simp add: ext_def wa_def s1_def)
  have H3: "arrays s3 h = H" using ext_arrays [OF e03 h] by (simp add: H_def)
  have W3: "arrays s3 wa = W"
  proof -
    have "wa < fresh s1" by (simp add: wa_def s1_def)
    from ext_arrays [OF ext_trans [OF e2 e3] this] show ?thesis by (simp add: wa_def s1_def)
  qed
  have A: "ext (storeOf ([], [], s3)) (storeOf st) \<and> wfState st
        \<and> absState st = foldl (\<lambda>p x. groupBooks H W p (fst x, arrays s3 (snd x)))
                           (absState ([], [], s3)) (fst gs)"
    unfolding st_def
  proof (rule fold_refine [where ?s0.0 = s3])
    show "wfState ([], [], s3)" by simp
    show "ext s3 (storeOf ([], [], s3))" by (simp add: storeOf_def)
    fix q :: sstate and x
    assume x: "x \<in> set (fst gs)" and w: "wfState q" and e: "ext s3 (storeOf q)"
    obtain bs' seen' s' where q: "q = (bs', seen', s')" by (cases q) auto
    from e have e': "ext s3 s'" by (simp add: q storeOf_def)
    from x gb have x3: "snd x < fresh s3" by blast
    from groupBooks_st_refine [of bs' seen' s' h wa x] w
      ext_fresh [OF e' h3] ext_fresh [OF e' wa3] ext_fresh [OF e' x3]
    show "ext (storeOf q) (storeOf (groupBooks_st h wa q x)) \<and> wfState (groupBooks_st h wa q x)
          \<and> absState (groupBooks_st h wa q x) = groupBooks H W (absState q) (fst x, arrays s3 (snd x))"
      by (simp add: q storeOf_def ext_arrays [OF e' h3] ext_arrays [OF e' wa3]
            ext_arrays [OF e' x3] H3 W3)
  qed
  then have est: "ext s3 (storeOf st)" and wst: "wfState st"
    and ast: "absState st = foldl (groupBooks H W) ([], [])
                              (rankGroups (filter (\<lambda>c. \<not> isWildCard c r) H))"
    by (simp_all add: storeOf_def absState_def gm [symmetric] foldl_map)
  have Wst: "arrays (storeOf st) wa = W" using ext_arrays [OF est wa3] W3 by simp
  have B: "ext (storeOf st) (storeOf (foldl (wildBook_st h r wa) st xs))
        \<and> wfState (foldl (wildBook_st h r wa) st xs)
        \<and> absState (foldl (wildBook_st h r wa) st xs) = foldl (wildBook H r W) (absState st) xs"
    for xs
  proof (rule fold_refine [where ?s0.0 = s3])
    show "wfState st" by (rule wst)
    show "ext s3 (storeOf st)" by (rule est)
    fix q :: sstate and x
    assume w: "wfState q" and e: "ext s3 (storeOf q)"
    obtain bs' seen' s' where q: "q = (bs', seen', s')" by (cases q) auto
    from e have e': "ext s3 s'" by (simp add: q storeOf_def)
    from wildBook_st_refine [of bs' seen' s' h wa r x] w
      ext_fresh [OF e' h3] ext_fresh [OF e' wa3]
    show "ext (storeOf q) (storeOf (wildBook_st h r wa q x)) \<and> wfState (wildBook_st h r wa q x)
          \<and> absState (wildBook_st h r wa q x) = wildBook H r W (absState q) x"
      by (simp add: q storeOf_def ext_arrays [OF e' h3] ext_arrays [OF e' wa3] H3 W3)
  qed
  have C: "ext (storeOf st) (storeOf st') \<and> wfState st'
        \<and> absState st' = (if length W \<ge> 3
                 then foldl (wildBook H r W) (absState st) [3..<Suc (length W)]
                 else absState st)"
    unfolding st'_def Wst using B [of "[3..<Suc (length W)]"] wst by (simp del: upt_Suc)
  have pure: "findBooks H r = fst (absState st')"
    using C ast by (simp add: findBooks_def Let_def W_def del: upt_Suc)
  have eq: "findBooks_st h r s = (fst st', storeOf st')"
    by (simp add: findBooks_st_def Let_def split_def st'_def st_def s3_def gs_def s2_def ra_def
          s1_def wa_def W_def H_def storeOf_def del: upt_Suc)
  have "ext s (storeOf st')"
    using e03 est C by (blast intro: ext_trans)
  moreover have "\<forall>m \<in> set (fst st'). scards m < fresh (storeOf st')"
    using C by (simp add: wfState_def)
  moreover have "map (deref (storeOf st')) (fst st') = findBooks H r"
    using pure by (simp add: absState_def)
  ultimately show ?thesis by (simp add: eq H_def)
qed

lemma run_pushed:
  assumes wf: "wfState (rs, seen, s)" and cs: "cs < fresh s" and e: "ext s s1"
    and a: "a < fresh s1" and X: "arrays s1 a = X"
  shows "ext s (storeOf (pushRun_st cs r a (rs, seen, s1)))
         \<and> wfState (pushRun_st cs r a (rs, seen, s1))
         \<and> absState (pushRun_st cs r a (rs, seen, s1))
             = pushRun (arrays s cs) r X (absState (rs, seen, s))"
proof -
  have c1: "arrays s1 cs = arrays s cs" using ext_arrays [OF e cs] .
  have m: "map (deref s1) rs = map (deref s) rs"
    using map_deref_ext [OF e] wf by (simp add: wfState_def storeOf_def)
  have w1: "\<forall>m \<in> set rs. scards m < fresh s1"
    using wf e by (auto simp: wfState_def storeOf_def ext_def)
  show ?thesis
    using e a w1
    by (simp add: pushRun_st_def pushRun_def Let_def storeOf_def wfState_def absState_def
          c1 X m deref_def)
qed

lemma run_not_pushed:
  assumes wf: "wfState (rs, seen, s)" and e: "ext s s1"
  shows "ext s (storeOf (rs, seen, s1)) \<and> wfState (rs, seen, s1)
         \<and> absState (rs, seen, s1) = absState (rs, seen, s)"
  using e wfState_ext [OF e wf] absState_ext [OF e wf] by (simp add: storeOf_def)

lemma consecutiveStep_st_refine:
  assumes wf: "wfState (rs, seen, s)" and cs: "cs < fresh s" and rp: "rp < fresh s"
  shows "ext s (storeOf (consecutiveStep_st cs r rp (rs, seen, s) ij))
         \<and> wfState (consecutiveStep_st cs r rp (rs, seen, s) ij)
         \<and> absState (consecutiveStep_st cs r rp (rs, seen, s) ij)
             = consecutiveStep (arrays s cs) r (arrays s rp) (absState (rs, seen, s)) ij"
proof -
  define sq where "sq = take (snd ij + 1 - fst ij) (drop (fst ij) (arrays s rp))"
  show ?thesis
  proof (cases "isConsecutive (map rank sq)")
    case False
    then show ?thesis
      using run_not_pushed [OF wf ext_refl]
      by (simp add: consecutiveStep_st_def consecutiveStep_def Let_def sq_def)
  next
    case True
    define s1 where "s1 = snd (alloc sq s)"
    have eq: "consecutiveStep_st cs r rp (rs, seen, s) ij = pushRun_st cs r (fresh s) (rs, seen, s1)"
      using True by (simp add: consecutiveStep_st_def Let_def sq_def s1_def alloc_def)
    have "ext s s1" unfolding s1_def by (rule ext_alloc)
    from run_pushed [OF wf cs this, of "fresh s" sq r]
    show ?thesis
      unfolding eq using True by (simp add: s1_def consecutiveStep_def Let_def sq_def)
  qed
qed

lemma fold_push_index:
  assumes "b \<noteq> a"
  shows "fresh (foldl (\<lambda>s' k. push a (arrays s' b ! k) s') s ks) = fresh s
         \<and> arrays (foldl (\<lambda>s' k. push a (arrays s' b ! k) s') s ks)
             = (arrays s)(a := arrays s a @ map (\<lambda>k. arrays s b ! k) ks)"
  using assms
proof (induction ks arbitrary: s)
  case Nil
  then show ?case by simp
next
  case (Cons k ks)
  from Cons.IH [OF Cons.prems, of "push a (arrays s b ! k) s"] Cons.prems
  show ?case by (auto simp: fun_eq_iff)
qed

lemma fold_push_list:
  "fresh (foldl (\<lambda>s' c. push a c s') s cs) = fresh s
   \<and> arrays (foldl (\<lambda>s' c. push a c s') s cs) = (arrays s)(a := arrays s a @ cs)"
proof (induction cs arbitrary: s)
  case Nil
  then show ?case by simp
next
  case (Cons c cs)
  from Cons.IH [of "push a c s"] show ?case by (auto simp: fun_eq_iff)
qed

lemma gapStep_st_refine:
  assumes wf: "wfState (rs, seen, s)" and cs: "cs < fresh s" and rp: "rp < fresh s"
    and wa: "wa < fresh s"
  shows "ext s (storeOf (gapStep_st cs r rp wa (rs, seen, s) ij))
         \<and> wfState (gapStep_st cs r rp wa (rs, seen, s) ij)
         \<and> absState (gapStep_st cs r rp wa (rs, seen, s) ij)
             = gapStep (arrays s cs) r (arrays s rp) (arrays s wa) (absState (rs, seen, s)) ij"
proof -
  define i where "i = fst ij"
  define j where "j = snd ij"
  define RP where "RP = arrays s rp"
  define WS where "WS = arrays s wa"
  define si where "si = rankIndex (rank (RP ! i))"
  define ei where "ei = rankIndex (rank (RP ! j))"
  define wn where "wn = ei - si + 1 - (int j - int i + 1)"
  define go where "go = (\<not> (si = - 1 \<or> ei = - 1) \<and> \<not> si \<ge> ei
                           \<and> wn \<ge> 0 \<and> wn \<le> int (length WS) \<and> ei - si + 1 \<ge> 3)"
  define fill where "fill = (if wn > 0 then take (nat wn) WS else [])"
  define sq where "sq = [RP ! i] @ map (\<lambda>k. RP ! k) [i + 1..<j] @ fill @ [RP ! j]"
  define a where "a = fresh s"
  define s1 where "s1 = snd (alloc [RP ! i] s)"
  define s2 where "s2 = foldl (\<lambda>s' k. push a (arrays s' rp ! k) s') s1 [i + 1..<j]"
  define s3 where "s3 = (if wn > 0
                         then foldl (\<lambda>s'' c. push a c s'') (snd (alloc (take (nat wn) (arrays s2 wa)) s2))
                                (arrays (snd (alloc (take (nat wn) (arrays s2 wa)) s2)) (fresh s2))
                         else s2)"
  define s4 where "s4 = push a (RP ! j) s3"
  have pure: "gapStep (arrays s cs) r RP WS p ij =
                (if go then (if length sq \<ge> 3 then pushRun (arrays s cs) r sq p else p) else p)" for p
    unfolding gapStep_def Let_def go_def sq_def fill_def wn_def si_def ei_def i_def j_def
    by (simp only: split: if_split) blast
  have st: "gapStep_st cs r rp wa (rs, seen, s) ij =
              (if go then (if length (arrays s4 a) \<ge> 3 then pushRun_st cs r a (rs, seen, s4)
                           else (rs, seen, s4))
               else (rs, seen, s))"
    unfolding gapStep_st_def Let_def go_def s4_def s3_def s2_def s1_def a_def wn_def si_def ei_def
      i_def j_def RP_def WS_def
    by (simp add: split_def)
  have rpa: "rp \<noteq> a" and waa: "wa \<noteq> a" using rp wa by (simp_all add: a_def)
  have f1: "fresh s1 = Suc (fresh s)" and a1: "arrays s1 = (arrays s)(a := [RP ! i])"
    by (auto simp: s1_def a_def fun_eq_iff)
  have f2: "fresh s2 = Suc (fresh s)"
    and a2: "arrays s2 = (arrays s)(a := [RP ! i] @ map (\<lambda>k. RP ! k) [i + 1..<j])"
    using fold_push_index [OF rpa, of s1 "[i + 1..<j]"] rpa
    by (auto simp: s2_def f1 a1 RP_def fun_eq_iff)
  have f3: "fresh s \<le> fresh s3 \<and> a < fresh s3"
    and a3: "arrays s3 a = [RP ! i] @ map (\<lambda>k. RP ! k) [i + 1..<j] @ fill"
    and o3: "\<forall>x < fresh s. arrays s3 x = arrays s x"
  proof -
    show "fresh s \<le> fresh s3 \<and> a < fresh s3"
      using fold_push_list [of a "snd (alloc (take (nat wn) (arrays s2 wa)) s2)"]
      by (simp add: s3_def f2 a_def)
    show "arrays s3 a = [RP ! i] @ map (\<lambda>k. RP ! k) [i + 1..<j] @ fill"
      using fold_push_list [of a "snd (alloc (take (nat wn) (arrays s2 wa)) s2)"] waa
      by (simp add: s3_def fill_def f2 a2 a_def WS_def)
    show "\<forall>x < fresh s. arrays s3 x = arrays s x"
      using fold_push_list [of a "snd (alloc (take (nat wn) (arrays s2 wa)) s2)"]
      by (simp add: s3_def f2 a2 a_def)
  qed
  have e4: "ext s s4" using f3 o3 by (simp add: ext_def s4_def a_def)
  have a4: "arrays s4 a = sq" using a3 by (simp add: s4_def sq_def)
  have b4: "a < fresh s4" using f3 by (simp add: s4_def)
  show ?thesis
  proof (cases "go \<and> length sq \<ge> 3")
    case True
    from run_pushed [OF wf cs e4 b4 a4, of r] True show ?thesis
      by (simp add: st pure [unfolded RP_def WS_def] a4)
  next
    case False
    show ?thesis
    proof (cases go)
      case True
      with False run_not_pushed [OF wf e4] show ?thesis
        by (simp add: st pure [unfolded RP_def WS_def] a4)
    next
      case False
      with run_not_pushed [OF wf ext_refl] show ?thesis
        by (simp add: st pure [unfolded RP_def WS_def])
    qed
  qed
qed

lemma pairStep_st_refine:
  assumes wf: "wfState (rs, seen, s)" and cs: "cs < fresh s" and rp: "rp < fresh s"
    and wa: "wa < fresh s"
  shows "ext s (storeOf (pairStep_st cs r rp wa (rs, seen, s) i))
         \<and> wfState (pairStep_st cs r rp wa (rs, seen, s) i)
         \<and> absState (pairStep_st cs r rp wa (rs, seen, s) i)
             = pairStep (arrays s cs) r (arrays s rp) (arrays s wa) (absState (rs, seen, s)) i"
proof -
  define c1 where "c1 = arrays s rp ! i"
  define c2 where "c2 = arrays s rp ! (i + 1)"
  define i1 where "i1 = rankIndex (rank c1)"
  define i2 where "i2 = rankIndex (rank c2)"
  define WS where "WS = arrays s wa"
  define CS where "CS = arrays s cs"
  define p where "p = absState (rs, seen, s)"
  define p1 where "p1 = (if i2 < int (length RANK_ORDER) - 1
                         then pushRun CS r ([c1, c2] @ take 1 WS) p else p)"
  define sl1 where "sl1 = alloc (take 1 (arrays s wa)) s"
  define ea where "ea = alloc ([c1, c2] @ arrays (snd sl1) (fst sl1)) (snd sl1)"
  define st1 where "st1 = (if i2 < int (length RANK_ORDER) - 1
                           then pushRun_st cs r (fst ea) (rs, seen, snd ea)
                           else (rs, seen, s))"
  define sl2 where "sl2 = alloc (take 1 (arrays (snd (snd st1)) wa)) (snd (snd st1))"
  define eb where "eb = alloc (arrays (snd sl2) (fst sl2) @ [c1, c2]) (snd sl2)"
  have code: "pairStep_st cs r rp wa (rs, seen, s) i =
     (if i1 = - 1 \<or> i2 = - 1 then (rs, seen, s)
      else if i2 - i1 = 1 \<and> length (arrays s wa) > 0 then
        (if i1 > 0 then pushRun_st cs r (fst eb) (fst st1, fst (snd st1), snd eb) else st1)
      else (rs, seen, s))"
    by (simp only: pairStep_st_def Let_def split_def prod.case fst_conv snd_conv
          sl1_def ea_def st1_def sl2_def eb_def i1_def i2_def c1_def c2_def)
  have pure: "pairStep CS r (arrays s rp) WS p i =
     (if i1 = - 1 \<or> i2 = - 1 then p
      else if i2 - i1 = 1 \<and> length WS > 0 then
        (if i1 > 0 then pushRun CS r (take 1 WS @ [c1, c2]) p1 else p1)
      else p)"
    by (simp only: pairStep_def Let_def p1_def i1_def i2_def c1_def c2_def)
  have eA: "ext s (snd ea)" unfolding ea_def sl1_def by (blast intro: ext_trans ext_alloc)
  have r1: "ext s (storeOf st1) \<and> wfState st1 \<and> absState st1 = p1"
  proof (cases "i2 < int (length RANK_ORDER) - 1")
    case True
    have "fst ea < fresh (snd ea)" by (simp add: ea_def)
    moreover have "arrays (snd ea) (fst ea) = [c1, c2] @ take 1 WS"
      by (simp add: ea_def sl1_def WS_def)
    ultimately show ?thesis
      using run_pushed [OF wf cs eA, of "fst ea" "[c1, c2] @ take 1 WS" r] True
      by (simp add: st1_def p1_def p_def CS_def)
  next
    case False
    with run_not_pushed [OF wf ext_refl] show ?thesis by (simp add: st1_def p1_def p_def)
  qed
  define s1 where "s1 = snd (snd st1)"
  from r1 have e1: "ext s s1" and wf1: "wfState (fst st1, fst (snd st1), s1)"
    and a1: "absState (fst st1, fst (snd st1), s1) = p1"
    by (simp_all add: s1_def storeOf_def)
  have cs1: "cs < fresh s1" using ext_fresh [OF e1 cs] .
  have WS1: "arrays s1 wa = WS" using ext_arrays [OF e1 wa] by (simp add: WS_def)
  have CS1: "arrays s1 cs = CS" using ext_arrays [OF e1 cs] by (simp add: CS_def)
  have eB: "ext s1 (snd eb)" unfolding eb_def sl2_def s1_def by (blast intro: ext_trans ext_alloc)
  have r2: "ext s1 (storeOf (pushRun_st cs r (fst eb) (fst st1, fst (snd st1), snd eb)))
            \<and> wfState (pushRun_st cs r (fst eb) (fst st1, fst (snd st1), snd eb))
            \<and> absState (pushRun_st cs r (fst eb) (fst st1, fst (snd st1), snd eb))
                = pushRun CS r (take 1 WS @ [c1, c2]) p1"
  proof -
    have "fst eb < fresh (snd eb)" by (simp add: eb_def)
    moreover have "arrays (snd eb) (fst eb) = take 1 WS @ [c1, c2]"
      using WS1 by (simp add: eb_def sl2_def s1_def)
    ultimately show ?thesis
      using run_pushed [OF wf1 cs1 eB, of "fst eb" "take 1 WS @ [c1, c2]" r]
      by (simp add: a1 CS1)
  qed
  from r2 e1 have r2': "ext s (storeOf (pushRun_st cs r (fst eb) (fst st1, fst (snd st1), snd eb)))"
    by (blast intro: ext_trans)
  have r0: "ext s (storeOf (rs, seen, s)) \<and> wfState (rs, seen, s) \<and> absState (rs, seen, s) = p"
    using wf by (simp add: storeOf_def p_def)
  show ?thesis
    unfolding code pure [unfolded CS_def WS_def p_def]
    using r0 r1 r2 r2' unfolding CS_def WS_def p_def
    by (simp only: split: if_split) blast
qed

lemma extendStep_st_refine:
  assumes wf: "wfState (ex, seen, s)" and cs: "cs < fresh s" and wa: "wa < fresh s"
    and rn: "scards rn < fresh s"
  shows "ext s (storeOf (extendStep_st cs r wa (ex, seen, s) rn))
         \<and> wfState (extendStep_st cs r wa (ex, seen, s) rn)
         \<and> absState (extendStep_st cs r wa (ex, seen, s) rn)
             = extendStep (arrays s cs) r (arrays s wa) (absState (ex, seen, s)) (deref s rn)"
proof -
  define RC where "RC = arrays s (scards rn)"
  define WS where "WS = arrays s wa"
  define CS where "CS = arrays s cs"
  define p where "p = absState (ex, seen, s)"
  define uw where "uw = filter (\<lambda>wc. wc \<notin> set (filter (\<lambda>c. isWildCard c r) RC)) WS"
  define A1 where "A1 = alloc (filter (\<lambda>c. \<not> isWildCard c r) (arrays s (scards rn))) s"
  define rr where "rr = map rank (arrays (snd A1) (fst A1))"
  define A2 where "A2 = alloc (filter (\<lambda>c. isWildCard c r) (arrays (snd A1) (scards rn))) (snd A1)"
  define A3 where "A3 = alloc (filter (\<lambda>wc. wc \<notin> set (arrays (snd A2) (fst A2)))
                                  (arrays (snd A2) wa)) (snd A2)"
  define fi where "fi = rankIndex (hd rr)"
  define li where "li = rankIndex (last rr)"
  define A4 where "A4 = alloc (hd (arrays (snd A3) (fst A3)) # arrays (snd A3) (scards rn)) (snd A3)"
  define st1 where "st1 = (if fi > 0 \<and> length (arrays (snd A3) (fst A3)) > 0
                           then pushRun_st cs r (fst A4) (ex, seen, snd A4)
                           else (ex, seen, snd A3))"
  define A6 where "A6 = alloc (arrays (snd (snd st1)) (scards rn)
                                 @ [hd (arrays (snd (snd st1)) (fst A3))]) (snd (snd st1))"
  define p1 where "p1 = (if fi > 0 \<and> length uw > 0 then pushRun CS r (hd uw # RC) p else p)"
  have code: "extendStep_st cs r wa (ex, seen, s) rn =
     (if length rr = 0 then (ex, seen, snd A1)
      else if length (arrays (snd A3) (fst A3)) \<le> 0 then (ex, seen, snd A3)
      else if fi = - 1 \<or> li = - 1 then (ex, seen, snd A3)
      else if li < int (length RANK_ORDER) - 1 \<and> length (arrays (snd (snd st1)) (fst A3)) > 0
           then pushRun_st cs r (fst A6) (fst st1, fst (snd st1), snd A6)
           else st1)"
    by (simp only: extendStep_st_def Let_def split_def prod.case fst_conv snd_conv
          A1_def rr_def A2_def A3_def fi_def li_def A4_def st1_def A6_def)
  have e1: "ext s (snd A1)" unfolding A1_def by (rule ext_alloc)
  have e2: "ext (snd A1) (snd A2)" unfolding A2_def by (rule ext_alloc)
  have e3: "ext (snd A2) (snd A3)" unfolding A3_def by (rule ext_alloc)
  have e03: "ext s (snd A3)" using e1 e2 e3 by (blast intro: ext_trans)
  have rr: "rr = map rank (filter (\<lambda>c. \<not> isWildCard c r) RC)"
    by (simp add: rr_def A1_def RC_def)
  have RC1: "arrays (snd A1) (scards rn) = RC" using ext_arrays [OF e1 rn] by (simp add: RC_def)
  have W2: "arrays (snd A2) wa = WS"
    using ext_arrays [OF ext_trans [OF e1 e2] wa] by (simp add: WS_def)
  have WI: "arrays (snd A2) (fst A2) = filter (\<lambda>c. isWildCard c r) RC"
    by (simp add: A2_def RC1)
  have "arrays (snd A3) (fst A3)
          = filter (\<lambda>wc. wc \<notin> set (arrays (snd A2) (fst A2))) (arrays (snd A2) wa)"
    by (simp add: A3_def)
  then have U3: "arrays (snd A3) (fst A3) = uw"
    by (simp only: WI W2 uw_def)
  have u3: "fst A3 < fresh (snd A3)" by (simp add: A3_def)
  have RC3: "arrays (snd A3) (scards rn) = RC" using ext_arrays [OF e03 rn] by (simp add: RC_def)
  have cs3: "cs < fresh (snd A3)" using ext_fresh [OF e03 cs] .
  have CS3: "arrays (snd A3) cs = CS" using ext_arrays [OF e03 cs] by (simp add: CS_def)
  have wf3: "wfState (ex, seen, snd A3)" using wfState_ext [OF e03 wf] .
  have p3: "absState (ex, seen, snd A3) = p" using absState_ext [OF e03 wf] by (simp add: p_def)
  have pure: "extendStep CS r WS p (deref s rn) =
     (if length rr = 0 then p
      else if length uw \<le> 0 then p
      else if fi = - 1 \<or> li = - 1 then p
      else if li < int (length RANK_ORDER) - 1 \<and> length uw > 0
           then pushRun CS r (RC @ [hd uw]) p1
           else p1)"
    by (simp only: extendStep_def Let_def p1_def fi_def li_def rr uw_def RC_def deref_def
          meld.simps)
  have rA: "ext s (storeOf (ex, seen, snd A1)) \<and> wfState (ex, seen, snd A1)
            \<and> absState (ex, seen, snd A1) = p"
    using run_not_pushed [OF wf e1] by (simp add: p_def)
  have rB: "ext s (storeOf (ex, seen, snd A3)) \<and> wfState (ex, seen, snd A3)
            \<and> absState (ex, seen, snd A3) = p"
    using run_not_pushed [OF wf e03] by (simp add: p_def)
  have r1: "ext (snd A3) (storeOf st1) \<and> wfState st1 \<and> absState st1 = p1"
  proof (cases "fi > 0 \<and> length uw > 0")
    case True
    have e4: "ext (snd A3) (snd A4)" unfolding A4_def by (rule ext_alloc)
    have "fst A4 < fresh (snd A4)" by (simp add: A4_def)
    moreover have "arrays (snd A4) (fst A4) = hd uw # RC" by (simp add: A4_def U3 RC3)
    moreover have "st1 = pushRun_st cs r (fst A4) (ex, seen, snd A4)"
      by (simp only: st1_def U3 True simp_thms if_True)
    moreover have "p1 = pushRun CS r (hd uw # RC) p"
      by (simp only: p1_def True simp_thms if_True)
    ultimately show ?thesis
      using run_pushed [OF wf3 cs3 e4, of "fst A4" "hd uw # RC" r]
      by (simp add: CS3 p3)
  next
    case False
    have "st1 = (ex, seen, snd A3)" by (simp only: st1_def U3 False simp_thms if_False)
    moreover have "p1 = p" by (simp only: p1_def False simp_thms if_False)
    moreover have "ext (snd A3) (storeOf (ex, seen, snd A3))" by (simp add: storeOf_def)
    ultimately show ?thesis using wf3 p3 by simp
  qed
  define s5 where "s5 = snd (snd st1)"
  from r1 have e5: "ext (snd A3) s5" and wf5: "wfState (fst st1, fst (snd st1), s5)"
    and a5: "absState (fst st1, fst (snd st1), s5) = p1"
    by (simp_all add: s5_def storeOf_def)
  have e05: "ext s s5" using e03 e5 by (rule ext_trans)
  have U5: "arrays s5 (fst A3) = uw" using ext_arrays [OF e5 u3] U3 by simp
  have RC5: "arrays s5 (scards rn) = RC" using ext_arrays [OF e05 rn] by (simp add: RC_def)
  have cs5: "cs < fresh s5" using ext_fresh [OF e05 cs] .
  have CS5: "arrays s5 cs = CS" using ext_arrays [OF e05 cs] by (simp add: CS_def)
  have e6: "ext s5 (snd A6)" unfolding A6_def s5_def by (rule ext_alloc)
  have r2: "ext s5 (storeOf (pushRun_st cs r (fst A6) (fst st1, fst (snd st1), snd A6)))
            \<and> wfState (pushRun_st cs r (fst A6) (fst st1, fst (snd st1), snd A6))
            \<and> absState (pushRun_st cs r (fst A6) (fst st1, fst (snd st1), snd A6))
                = pushRun CS r (RC @ [hd uw]) p1"
  proof -
    have "fst A6 < fresh (snd A6)" by (simp add: A6_def)
    moreover have "arrays (snd A6) (fst A6) = RC @ [hd uw]"
      using U5 RC5 by (simp add: A6_def s5_def)
    ultimately show ?thesis
      using run_pushed [OF wf5 cs5 e6, of "fst A6" "RC @ [hd uw]" r]
      by (simp add: a5 CS5)
  qed
  from r2 e05 have r2': "ext s (storeOf (pushRun_st cs r (fst A6) (fst st1, fst (snd st1), snd A6)))"
    by (blast intro: ext_trans)
  from r1 e03 have r1': "ext s (storeOf st1)" by (blast intro: ext_trans)
  have U5': "arrays (snd (snd st1)) (fst A3) = uw" using U5 by (simp add: s5_def)
  show ?thesis
    unfolding code pure [unfolded CS_def WS_def p_def] U3 U5'
    using rA rB r1 r1' r2 r2' unfolding CS_def WS_def p_def
    by (simp only: split: if_split) blast
qed

lemma sortInPlace_simps [simp]:
  "fresh (sortInPlace a s) = fresh s"
  "arrays (sortInPlace a s) b
     = (if b = a then sort_key (\<lambda>c. rankIndex (rank c)) (arrays s a) else arrays s b)"
  by (simp_all add: sortInPlace_def)

lemma findRunsInSuit_st_refine:
  assumes sa: "sa < fresh s" and oc: "case oc of Some a \<Rightarrow> a < fresh s | None \<Rightarrow> True"
  shows "ext s (snd (findRunsInSuit_st sa r oc s))
         \<and> (\<forall>m \<in> set (fst (findRunsInSuit_st sa r oc s)).
               scards m < fresh (snd (findRunsInSuit_st sa r oc s)))
         \<and> map (deref (snd (findRunsInSuit_st sa r oc s))) (fst (findRunsInSuit_st sa r oc s))
             = findRunsInSuit (arrays s sa) r (map_option (arrays s) oc)"
proof -
  define ca where "ca = (case oc of Some a \<Rightarrow> a | None \<Rightarrow> sa)"
  define CS where "CS = (case map_option (arrays s) oc of Some c \<Rightarrow> c | None \<Rightarrow> arrays s sa)"
  define A1 where "A1 = alloc (filter (\<lambda>c. \<not> isWildCard c r) (arrays s sa)) s"
  define A2 where "A2 = alloc (filter (\<lambda>c. isWildCard c r) (arrays (snd A1) sa)) (snd A1)"
  define ra where "ra = fst A1"
  define wa where "wa = fst A2"
  define s3 where "s3 = sortInPlace ra (snd A2)"
  define RP where "RP = sort_key (\<lambda>c. rankIndex (rank c)) (filter (\<lambda>c. \<not> isWildCard c r) (arrays s sa))"
  define WS where "WS = filter (\<lambda>c. isWildCard c r) (arrays s sa)"
  define n where "n = length (arrays s3 ra)"
  define st0 where "st0 = foldl (consecutiveStep_st ca r ra) ([], [], s3) (loopPairs 2 n)"
  define st1 where "st1 = foldl (gapStep_st ca r ra wa) st0 (loopPairs 1 n)"
  define st2 where "st2 = foldl (pairStep_st ca r ra wa) st1 [0..<n - 1]"
  define ex where "ex = foldl (extendStep_st ca r wa) ([], fst (snd st2), snd (snd st2)) (fst st2)"
  define p0 where "p0 = foldl (consecutiveStep CS r RP) ([], []) (loopPairs 2 n)"
  define p1 where "p1 = foldl (gapStep CS r RP WS) p0 (loopPairs 1 n)"
  define p2 where "p2 = foldl (pairStep CS r RP WS) p1 [0..<n - 1]"
  define pe where "pe = foldl (extendStep CS r WS) ([], snd p2) (fst p2)"
  have code: "findRunsInSuit_st sa r oc s =
     (if length (arrays s3 wa) > 0 \<and> n > 0 then (fst st2 @ fst ex, snd (snd ex))
      else (fst st0, snd (snd st0)))"
    by (simp only: findRunsInSuit_st_def Let_def split_def prod.case fst_conv snd_conv
          ca_def A1_def A2_def ra_def wa_def s3_def n_def st0_def st1_def st2_def ex_def)
  have ca: "ca < fresh s" and CSs: "arrays s ca = CS"
    using sa oc by (auto simp: ca_def CS_def split: option.splits)
  have ras: "ra = fresh s" and was: "wa = Suc (fresh s)"
    by (simp_all add: ra_def wa_def A1_def A2_def)
  have f3: "fresh s3 = Suc (Suc (fresh s))"
    by (simp add: s3_def A2_def A1_def)
  have e3: "ext s s3"
    by (simp add: ext_def s3_def A2_def A1_def ras)
  have RP3: "arrays s3 ra = RP"
    using sa by (simp add: s3_def A2_def A1_def ras RP_def)
  have WS3: "arrays s3 wa = WS"
    using sa by (simp add: s3_def A2_def A1_def ras was WS_def)
  have CS3: "arrays s3 ca = CS" using ext_arrays [OF e3 ca] CSs by simp
  have b3: "ca < fresh s3" "ra < fresh s3" "wa < fresh s3"
    using ca by (simp_all add: f3 ras was)
  have nn: "n = length RP" by (simp add: n_def RP3)
  have pure: "findRunsInSuit (arrays s sa) r (map_option (arrays s) oc) =
     (if length WS > 0 \<and> n > 0 then fst p2 @ fst pe else fst p0)"
    by (simp only: findRunsInSuit_def Let_def CS_def RP_def WS_def nn p0_def p1_def p2_def pe_def)
  have stable: "ca < fresh s' \<and> ra < fresh s' \<and> wa < fresh s'
                \<and> arrays s' ca = CS \<and> arrays s' ra = RP \<and> arrays s' wa = WS"
    if "ext s3 s'" for s'
    using that b3 CS3 RP3 WS3 by (simp add: ext_def)
  have r0: "ext (storeOf ([], [], s3)) (storeOf st0) \<and> wfState st0
            \<and> absState st0 = foldl (consecutiveStep CS r RP) (absState ([], [], s3)) (loopPairs 2 n)"
    unfolding st0_def
  proof (rule fold_refine [where ?s0.0 = s3])
    show "wfState ([], [], s3)" by simp
    show "ext s3 (storeOf ([], [], s3))" by (simp add: storeOf_def)
    fix q :: sstate and x :: "nat \<times> nat"
    assume w: "wfState q" and e: "ext s3 (storeOf q)"
    obtain bs' seen' s' where q: "q = (bs', seen', s')" by (cases q) auto
    from e have "ext s3 s'" by (simp add: q storeOf_def)
    from stable [OF this] consecutiveStep_st_refine [of bs' seen' s' ca ra r x] w
    show "ext (storeOf q) (storeOf (consecutiveStep_st ca r ra q x))
          \<and> wfState (consecutiveStep_st ca r ra q x)
          \<and> absState (consecutiveStep_st ca r ra q x) = consecutiveStep CS r RP (absState q) x"
      by (simp add: q storeOf_def)
  qed
  then have e0: "ext s3 (storeOf st0)" and w0: "wfState st0" and a0: "absState st0 = p0"
    by (simp_all add: storeOf_def absState_def p0_def)
  have r1: "ext (storeOf st0) (storeOf st1) \<and> wfState st1
            \<and> absState st1 = foldl (gapStep CS r RP WS) (absState st0) (loopPairs 1 n)"
    unfolding st1_def
  proof (rule fold_refine [where ?s0.0 = s3, OF _ w0 e0])
    fix q :: sstate and x :: "nat \<times> nat"
    assume w: "wfState q" and e: "ext s3 (storeOf q)"
    obtain bs' seen' s' where q: "q = (bs', seen', s')" by (cases q) auto
    from e have "ext s3 s'" by (simp add: q storeOf_def)
    from stable [OF this] gapStep_st_refine [of bs' seen' s' ca ra wa r x] w
    show "ext (storeOf q) (storeOf (gapStep_st ca r ra wa q x))
          \<and> wfState (gapStep_st ca r ra wa q x)
          \<and> absState (gapStep_st ca r ra wa q x) = gapStep CS r RP WS (absState q) x"
      by (simp add: q storeOf_def)
  qed
  then have e1: "ext s3 (storeOf st1)" and w1: "wfState st1" and a1: "absState st1 = p1"
    using e0 by (auto simp: a0 p1_def intro: ext_trans)
  have r2: "ext (storeOf st1) (storeOf st2) \<and> wfState st2
            \<and> absState st2 = foldl (pairStep CS r RP WS) (absState st1) [0..<n - 1]"
    unfolding st2_def
  proof (rule fold_refine [where ?s0.0 = s3, OF _ w1 e1])
    fix q :: sstate and x :: nat
    assume w: "wfState q" and e: "ext s3 (storeOf q)"
    obtain bs' seen' s' where q: "q = (bs', seen', s')" by (cases q) auto
    from e have "ext s3 s'" by (simp add: q storeOf_def)
    from stable [OF this] pairStep_st_refine [of bs' seen' s' ca ra wa r x] w
    show "ext (storeOf q) (storeOf (pairStep_st ca r ra wa q x))
          \<and> wfState (pairStep_st ca r ra wa q x)
          \<and> absState (pairStep_st ca r ra wa q x) = pairStep CS r RP WS (absState q) x"
      by (simp add: q storeOf_def)
  qed
  then have e2: "ext s3 (storeOf st2)" and w2: "wfState st2" and a2: "absState st2 = p2"
    using e1 by (auto simp: a1 p2_def intro: ext_trans)
  define s2' where "s2' = storeOf st2"
  have fp2: "fst p2 = map (deref s2') (fst st2)" and sp2: "snd p2 = fst (snd st2)"
    using a2 by (auto simp: absState_def s2'_def)
  have re: "ext (storeOf ([], fst (snd st2), s2')) (storeOf ex) \<and> wfState ex
            \<and> absState ex = foldl (\<lambda>p x. extendStep CS r WS p (deref s2' x))
                               (absState ([], fst (snd st2), s2')) (fst st2)"
    unfolding ex_def s2'_def [unfolded storeOf_def, symmetric]
  proof (rule fold_refine [where ?s0.0 = s2'])
    show "wfState ([], fst (snd st2), s2')" by simp
    show "ext s2' (storeOf ([], fst (snd st2), s2'))" by (simp add: storeOf_def)
    fix q :: sstate and x :: smeld
    assume x: "x \<in> set (fst st2)" and w: "wfState q" and e: "ext s2' (storeOf q)"
    obtain bs' seen' s' where q: "q = (bs', seen', s')" by (cases q) auto
    from e have e': "ext s2' s'" by (simp add: q storeOf_def)
    from x w2 have xb: "scards x < fresh s2'" by (simp add: wfState_def s2'_def)
    have e3': "ext s3 s'" using e2 e' by (auto simp: s2'_def intro: ext_trans)
    from stable [OF e3'] extendStep_st_refine [of bs' seen' s' ca wa x r] w
      ext_fresh [OF e' xb] deref_ext [OF e' xb]
    show "ext (storeOf q) (storeOf (extendStep_st ca r wa q x))
          \<and> wfState (extendStep_st ca r wa q x)
          \<and> absState (extendStep_st ca r wa q x) = extendStep CS r WS (absState q) (deref s2' x)"
      by (simp add: q storeOf_def)
  qed
  then have ee: "ext s2' (storeOf ex)" and we: "wfState ex" and ae: "absState ex = pe"
    by (simp_all add: storeOf_def absState_def pe_def fp2 sp2 foldl_map)
  have W3: "length (arrays s3 wa) = length WS" by (simp add: WS3)
  show ?thesis
  proof (cases "length WS > 0 \<and> n > 0")
    case True
    have "ext s (storeOf ex)" using e3 e2 ee by (auto simp: s2'_def intro: ext_trans)
    moreover have "\<forall>m \<in> set (fst st2 @ fst ex). scards m < fresh (storeOf ex)"
      using w2 we ee by (auto simp: wfState_def s2'_def ext_def)
    moreover have "map (deref (storeOf ex)) (fst st2 @ fst ex) = fst p2 @ fst pe"
    proof -
      have "map (deref (storeOf ex)) (fst st2) = map (deref s2') (fst st2)"
        using map_deref_ext [OF ee] w2 by (simp add: wfState_def s2'_def)
      moreover have "map (deref (storeOf ex)) (fst ex) = fst pe"
        using ae by (auto simp: absState_def)
      ultimately show ?thesis by (simp add: fp2)
    qed
    moreover have "findRunsInSuit_st sa r oc s = (fst st2 @ fst ex, snd (snd ex))"
      by (simp only: code W3 True simp_thms if_True)
    moreover have "findRunsInSuit (arrays s sa) r (map_option (arrays s) oc) = fst p2 @ fst pe"
      by (simp only: pure True simp_thms if_True)
    ultimately show ?thesis by (simp add: storeOf_def)
  next
    case False
    have "ext s (storeOf st0)" using e3 e0 by (rule ext_trans)
    moreover have "\<forall>m \<in> set (fst st0). scards m < fresh (storeOf st0)"
      using w0 by (simp add: wfState_def)
    moreover have "map (deref (storeOf st0)) (fst st0) = fst p0"
      using a0 by (auto simp: absState_def)
    moreover have "findRunsInSuit_st sa r oc s = (fst st0, snd (snd st0))"
      by (simp only: code W3 False simp_thms if_False)
    moreover have "findRunsInSuit (arrays s sa) r (map_option (arrays s) oc) = fst p0"
      by (simp only: pure False simp_thms if_False)
    ultimately show ?thesis by (simp add: storeOf_def)
  qed
qed

lemma keepRun_st_refine:
  assumes wf: "wfState (rs, seen, s)" and rn: "scards rn < fresh s"
  shows "ext s (storeOf (keepRun_st h (rs, seen, s) rn))
         \<and> wfState (keepRun_st h (rs, seen, s) rn)
         \<and> absState (keepRun_st h (rs, seen, s) rn)
             = keepRun (arrays s h) (absState (rs, seen, s)) (deref s rn)"
  using assms
  by (simp add: keepRun_st_def keepRun_def Let_def storeOf_def wfState_def absState_def deref_def)

lemma suitRuns_st_refine:
  assumes wf: "wfState (rs, seen, s)" and h: "h < fresh s" and g: "snd g < fresh s"
  shows "ext s (storeOf (suitRuns_st h r (rs, seen, s) g))
         \<and> wfState (suitRuns_st h r (rs, seen, s) g)
         \<and> absState (suitRuns_st h r (rs, seen, s) g)
             = suitRuns (arrays s h) r (absState (rs, seen, s)) (fst g, arrays s (snd g))"
proof -
  define F where "F = findRunsInSuit_st (snd g) r (Some h) s"
  define s1 where "s1 = snd F"
  define H where "H = arrays s h"
  have code: "suitRuns_st h r (rs, seen, s) g = foldl (keepRun_st h) (rs, seen, s1) (fst F)"
    by (simp only: suitRuns_st_def Let_def split_def prod.case fst_conv snd_conv F_def s1_def)
  from findRunsInSuit_st_refine [of "snd g" s "Some h" r] g h
  have e1: "ext s s1" and b1: "\<forall>m \<in> set (fst F). scards m < fresh s1"
    and m1: "map (deref s1) (fst F) = findRunsInSuit (arrays s (snd g)) r (Some H)"
    by (simp_all add: F_def s1_def H_def)
  have H1: "arrays s1 h = H" using ext_arrays [OF e1 h] by (simp add: H_def)
  have w1: "wfState (rs, seen, s1)" using wfState_ext [OF e1 wf] .
  have a1: "absState (rs, seen, s1) = absState (rs, seen, s)" using absState_ext [OF e1 wf] .
  have "ext (storeOf (rs, seen, s1)) (storeOf (foldl (keepRun_st h) (rs, seen, s1) (fst F)))
        \<and> wfState (foldl (keepRun_st h) (rs, seen, s1) (fst F))
        \<and> absState (foldl (keepRun_st h) (rs, seen, s1) (fst F))
            = foldl (\<lambda>p x. keepRun H p (deref s1 x)) (absState (rs, seen, s1)) (fst F)"
  proof (rule fold_refine [where ?s0.0 = s1, OF _ w1])
    show "ext s1 (storeOf (rs, seen, s1))" by (simp add: storeOf_def)
    fix q :: sstate and x :: smeld
    assume x: "x \<in> set (fst F)" and w: "wfState q" and e: "ext s1 (storeOf q)"
    obtain bs' seen' s' where q: "q = (bs', seen', s')" by (cases q) auto
    from e have e': "ext s1 s'" by (simp add: q storeOf_def)
    from x b1 have xb: "scards x < fresh s1" by blast
    have "h < fresh s1" using ext_fresh [OF e1 h] .
    from keepRun_st_refine [of bs' seen' s' x h] w ext_fresh [OF e' xb] deref_ext [OF e' xb]
      ext_arrays [OF e' this] H1
    show "ext (storeOf q) (storeOf (keepRun_st h q x)) \<and> wfState (keepRun_st h q x)
          \<and> absState (keepRun_st h q x) = keepRun H (absState q) (deref s1 x)"
      by (simp add: q storeOf_def)
  qed
  then have "ext s (storeOf (suitRuns_st h r (rs, seen, s) g))
        \<and> wfState (suitRuns_st h r (rs, seen, s) g)
        \<and> absState (suitRuns_st h r (rs, seen, s) g)
            = foldl (keepRun H) (absState (rs, seen, s)) (map (deref s1) (fst F))"
    using e1 by (auto simp: code a1 foldl_map storeOf_def intro: ext_trans)
  then show ?thesis by (simp add: suitRuns_def m1 H_def)
qed

lemma suitGroupStep_st_rel:
  assumes "groupsRel s0 gs pg"
  shows "groupsRel s0 (suitGroupStep_st r gs c) (suitGroupStep r pg c)"
proof (cases "rank c = Joker \<or> isWildCard c r")
  case True
  have "groupsRel s0 (foldl (\<lambda>gs' su. groupPush_st su c gs') gs allSuits)
          (foldl (\<lambda>g' su. groupPush su c g') pg allSuits)"
    by (rule fold_rel [where Rl = "groupsRel s0"]) (simp_all add: assms groupPush_st_rel)
  with True show ?thesis by (simp add: suitGroupStep_st_def suitGroupStep_def)
next
  case False
  with groupPush_st_rel [OF assms] show ?thesis
    by (simp add: suitGroupStep_st_def suitGroupStep_def)
qed

lemma suitGroups_st_rel: "groupsRel s (suitGroups_st h r s) (suitGroups (arrays s h) r)"
  unfolding suitGroups_st_def suitGroups_def
  by (rule fold_rel [where Rl = "groupsRel s"]) (simp_all add: groupsRel_init suitGroupStep_st_rel)

lemma findRuns_st_refine:
  assumes h: "h < fresh s"
  shows "ext s (snd (findRuns_st h r s))
         \<and> (\<forall>m \<in> set (fst (findRuns_st h r s)). scards m < fresh (snd (findRuns_st h r s)))
         \<and> map (deref (snd (findRuns_st h r s))) (fst (findRuns_st h r s)) = findRuns (arrays s h) r"
proof -
  define H where "H = arrays s h"
  define gs where "gs = suitGroups_st h r s"
  define s1 where "s1 = snd gs"
  define st where "st = foldl (suitRuns_st h r) ([], [], s1) (fst gs)"
  have code: "findRuns_st h r s = (fst st, snd (snd st))"
    by (simp only: findRuns_st_def Let_def split_def prod.case fst_conv snd_conv gs_def s1_def st_def)
  from suitGroups_st_rel [of s h r]
  have e1: "ext s s1" and gb: "\<forall>g \<in> set (fst gs). snd g < fresh s1"
    and gm: "map (\<lambda>g. (fst g, arrays s1 (snd g))) (fst gs) = suitGroups H r"
    by (simp_all add: groupsRel_def gs_def s1_def H_def)
  have h1: "h < fresh s1" using ext_fresh [OF e1 h] .
  have H1: "arrays s1 h = H" using ext_arrays [OF e1 h] by (simp add: H_def)
  have "ext (storeOf ([], [], s1)) (storeOf st) \<and> wfState st
        \<and> absState st = foldl (\<lambda>p x. suitRuns H r p (fst x, arrays s1 (snd x)))
                           (absState ([], [], s1)) (fst gs)"
    unfolding st_def
  proof (rule fold_refine [where ?s0.0 = s1])
    show "wfState ([], [], s1)" by simp
    show "ext s1 (storeOf ([], [], s1))" by (simp add: storeOf_def)
    fix q :: sstate and x :: "suit \<times> addr"
    assume x: "x \<in> set (fst gs)" and w: "wfState q" and e: "ext s1 (storeOf q)"
    obtain bs' seen' s' where q: "q = (bs', seen', s')" by (cases q) auto
    from e have e': "ext s1 s'" by (simp add: q storeOf_def)
    from x gb have xb: "snd x < fresh s1" by blast
    from suitRuns_st_refine [of bs' seen' s' h x r] w
      ext_fresh [OF e' h1] ext_fresh [OF e' xb] ext_arrays [OF e' h1] ext_arrays [OF e' xb] H1
    show "ext (storeOf q) (storeOf (suitRuns_st h r q x)) \<and> wfState (suitRuns_st h r q x)
          \<and> absState (suitRuns_st h r q x) = suitRuns H r (absState q) (fst x, arrays s1 (snd x))"
      by (simp add: q storeOf_def)
  qed
  then have est: "ext s1 (storeOf st)" and wst: "wfState st"
    and ast: "absState st = foldl (suitRuns H r) ([], []) (suitGroups H r)"
    by (simp_all add: storeOf_def absState_def gm [symmetric] foldl_map)
  have "ext s (storeOf st)" using e1 est by (rule ext_trans)
  moreover have "\<forall>m \<in> set (fst st). scards m < fresh (storeOf st)"
    using wst by (simp add: wfState_def)
  moreover have "map (deref (storeOf st)) (fst st) = findRuns H r"
  proof -
    have "fst (absState st) = map (deref (storeOf st)) (fst st)" by (simp add: absState_def)
    then show ?thesis by (simp add: ast findRuns_def)
  qed
  ultimately show ?thesis by (simp add: code storeOf_def H_def)
qed

lemma findMelds_st_refine:
  assumes h: "h < fresh s"
  shows "ext s (snd (findMelds_st h r s))
         \<and> (\<forall>m \<in> set (fst (findMelds_st h r s)). scards m < fresh (snd (findMelds_st h r s)))
         \<and> map (deref (snd (findMelds_st h r s))) (fst (findMelds_st h r s)) = findMelds (arrays s h) r"
proof (cases "length (arrays s h) < 3")
  case True
  then show ?thesis by (simp add: findMelds_st_def findMelds_def)
next
  case False
  define B where "B = findBooks_st h r s"
  define R where "R = findRuns_st h r (snd B)"
  have code: "findMelds_st h r s = (fst B @ fst R, snd R)"
    using False by (simp add: findMelds_st_def Let_def split_def B_def R_def)
  from findBooks_st_refine [OF h, of r]
  have eB: "ext s (snd B)" and bB: "\<forall>m \<in> set (fst B). scards m < fresh (snd B)"
    and mB: "map (deref (snd B)) (fst B) = findBooks (arrays s h) r"
    by (simp_all add: B_def)
  have hB: "h < fresh (snd B)" using ext_fresh [OF eB h] .
  from findRuns_st_refine [OF hB, of r]
  have eR: "ext (snd B) (snd R)" and bR: "\<forall>m \<in> set (fst R). scards m < fresh (snd R)"
    and mR: "map (deref (snd R)) (fst R) = findRuns (arrays s h) r"
    using ext_arrays [OF eB h] by (simp_all add: R_def)
  have "ext s (snd R)" using eB eR by (rule ext_trans)
  moreover have "\<forall>m \<in> set (fst B @ fst R). scards m < fresh (snd R)"
    using bB bR eR by (auto simp: ext_def)
  moreover have "map (deref (snd R)) (fst B @ fst R) = findMelds (arrays s h) r"
    using map_deref_ext [OF eR bB] mB mR False by (simp add: findMelds_def)
  ultimately show ?thesis by (simp add: code)
qed

text \<open>
  C10: \<open>findMelds\<close> is pure.  For every store, every hand in it and every round, a call
  leaves the hand, and every other array that existed before the call, as it was; the
  melds it returns are those of the function \<open>findMelds\<close> of the hand's cards and the
  round alone; a second call on the same hand returns the same melds, in the same order,
  and leaves the melds of the first call as they were.
\<close>

theorem C10_findMelds_pure:
  assumes "hand < fresh s"
  shows "arrays (snd (findMelds_st hand r s)) hand = arrays s hand
     \<and> (\<forall>a < fresh s. arrays (snd (findMelds_st hand r s)) a = arrays s a)
     \<and> map (deref (snd (findMelds_st hand r s))) (fst (findMelds_st hand r s))
         = findMelds (arrays s hand) r
     \<and> map (deref (snd (findMelds_st hand r (snd (findMelds_st hand r s)))))
           (fst (findMelds_st hand r (snd (findMelds_st hand r s))))
         = map (deref (snd (findMelds_st hand r s))) (fst (findMelds_st hand r s))
     \<and> map (deref (snd (findMelds_st hand r (snd (findMelds_st hand r s)))))
           (fst (findMelds_st hand r s))
         = map (deref (snd (findMelds_st hand r s))) (fst (findMelds_st hand r s))"
proof -
  define s1 where "s1 = snd (findMelds_st hand r s)"
  from findMelds_st_refine [OF assms, of r]
  have e1: "ext s s1" and b1: "\<forall>m \<in> set (fst (findMelds_st hand r s)). scards m < fresh s1"
    and m1: "map (deref s1) (fst (findMelds_st hand r s)) = findMelds (arrays s hand) r"
    by (simp_all add: s1_def)
  have h1: "hand < fresh s1" using ext_fresh [OF e1 assms] .
  have H1: "arrays s1 hand = arrays s hand" using ext_arrays [OF e1 assms] .
  from findMelds_st_refine [OF h1, of r]
  have e2: "ext s1 (snd (findMelds_st hand r s1))"
    and m2: "map (deref (snd (findMelds_st hand r s1))) (fst (findMelds_st hand r s1))
               = findMelds (arrays s hand) r"
    by (simp_all add: H1)
  have "\<forall>a < fresh s. arrays s1 a = arrays s a" using e1 by (simp add: ext_def)
  moreover have "map (deref (snd (findMelds_st hand r s1))) (fst (findMelds_st hand r s))
                   = map (deref s1) (fst (findMelds_st hand r s))"
    using map_deref_ext [OF e2 b1] .
  ultimately show ?thesis
    using H1 m1 m2 unfolding s1_def [symmetric] by simp
qed

theorem C10_findMelds_pure_witness:
  "(0::nat) < fresh store0
   \<and> arrays (snd (findMelds_st 0 R3 store0)) 0 = handDup
   \<and> map (deref (snd (findMelds_st 0 R3 store0))) (fst (findMelds_st 0 R3 store0))
       = findMelds handDup R3"
proof -
  have a: "(0::nat) < fresh store0" by (simp add: store0_def)
  have b: "arrays store0 0 = handDup" by (simp add: store0_def)
  from C10_findMelds_pure [OF a, of R3] a b show ?thesis by simp
qed

end
